theory Spec2Isabelle
  imports Main "HOL-Library.Word"
begin

unbundle bit_operations_syntax

section \<open>The bitdata package: data model\<close>

text \<open>
  The Go types of \<^verbatim>\<open>bitdata.go\<close>. A \<^verbatim>\<open>byte\<close> is an 8-bit word, \<^verbatim>\<open>uint\<close> is taken at its
  64-bit size, and \<^verbatim>\<open>int8\<close> is an 8-bit word that is read through \<open>sint\<close> wherever the
  source compares it as a signed number. \<^verbatim>\<open>BitData\<close> is a byte slice. A slice's length
  is a Go \<^verbatim>\<open>int\<close>, so the conversion \<^verbatim>\<open>uint(len(r.data))\<close> is exact and the bounds checks
  compare \<open>unat idx\<close> with \<open>length\<close>.

  Both \<^verbatim>\<open>Writer\<close> and \<^verbatim>\<open>Reader\<close> have a field \<^verbatim>\<open>data\<close>; the records name them \<open>wdata\<close> and
  \<open>rdata\<close>. The writer reaches its buffer through a pointer and \<^verbatim>\<open>BitData()\<close> hands out
  that slice; the model passes the bytes by value, which is what a reader sees of a
  buffer that is read after the writes are done. An \<^verbatim>\<open>error\<close> of the package is one of
  two values, \<^verbatim>\<open>ErrBitCountTooBig\<close> and \<^verbatim>\<open>io.ErrUnexpectedEOF\<close>.
\<close>

type_synonym byte = "8 word"
type_synonym uint = "64 word"
type_synonym int8 = "8 word"
type_synonym BitData = "byte list"

datatype error = ErrBitCountTooBig | ErrUnexpectedEOF

record Writer =
  wdata :: BitData
  bitsWritten :: uint

record Reader =
  rdata :: BitData
  bitsRead :: uint

record ReaderError =
  reader :: Reader
  err :: "error option"

section \<open>The generic engine: mask, write, read\<close>

text \<open>
  \<^verbatim>\<open>func mask[T integer](n byte) T { return T(1)<<n - 1 }\<close>.
  Go's shift binds tighter than the subtraction, a shift by the width or more gives 0,
  and the subtraction wraps in \<open>T\<close>.
\<close>

definition maskT :: "byte \<Rightarrow> 'a::len word" where
  "maskT n = push_bit (unat n) 1 - 1"

text \<open>
  The \<^verbatim>\<open>for bitsRemain > 0\<close> loop of \<^verbatim>\<open>write\<close>: one byte appended per round. The counter
  is an \<^verbatim>\<open>int8\<close>; the comparison is signed and the subtraction wraps.
\<close>

function write_loop :: "BitData \<Rightarrow> 'a::len word \<Rightarrow> int8 \<Rightarrow> BitData" where
  "write_loop d val bitsRemain =
     (if 0 < sint bitsRemain
      then write_loop (d @ [ucast val]) (drop_bit 8 val) (bitsRemain - 8)
      else d)"
  by pat_completeness auto
termination
proof (relation "measure (\<lambda>(d, val, bitsRemain). nat (sint bitsRemain))")
  show "wf (measure (\<lambda>(d :: BitData, val :: 'a word, bitsRemain :: int8). nat (sint bitsRemain)))"
    by simp
next
  fix d :: BitData and val :: "'a word" and bitsRemain :: int8
  assume pos: "0 < sint bitsRemain"
  have "sint bitsRemain < 128"
    using sint_less [of bitsRemain] by simp
  with pos have "sint (bitsRemain - 8) = sint bitsRemain - 8"
    by (simp add: sint_word_diff signed_take_bit_int_eq_self)
  with pos show "((d @ [ucast val], drop_bit 8 val, bitsRemain - 8), (d, val, bitsRemain))
      \<in> measure (\<lambda>(d, val, bitsRemain). nat (sint bitsRemain))"
    by simp
qed

declare write_loop.simps [simp del]

text \<open>
  \<^verbatim>\<open>func write[T integer](w *Writer, value T, bitCount byte)\<close>. The result is \<open>None\<close>
  where Go panics: the store \<^verbatim>\<open>(*w.data)[idx]\<close> with \<open>idx\<close> outside the slice.
  (\<open>write\<close> is a reserved word of the proof language, hence \<open>writeT\<close>, as \<open>maskT\<close>.)
\<close>

definition writeT :: "Writer \<Rightarrow> 'a::len word \<Rightarrow> byte \<Rightarrow> Writer option" where
  "writeT w val0 bitCount =
     (if bitCount = 0 then Some w
      else
        let val = val0 AND maskT bitCount;
            idx = bitsWritten w div 8;
            ofs = bitsWritten w mod 8;
            bitsRemain = (bitCount :: int8)
        in
          if 0 < ofs then
            (if length (wdata w) \<le> unat idx then None
             else
               let d = (wdata w)[unat idx :=
                          (wdata w ! unat idx) OR ucast (push_bit (unat ofs) val)];
                   bits = (8 - ucast ofs :: int8)
               in Some \<lparr>wdata = write_loop d (drop_bit (unat bits) val) (bitsRemain - bits),
                         bitsWritten = bitsWritten w + ucast bitCount\<rparr>)
          else
            Some \<lparr>wdata = write_loop (wdata w) val bitsRemain,
                  bitsWritten = bitsWritten w + ucast bitCount\<rparr>)"

text \<open>
  The \<^verbatim>\<open>for bitsRemain > 0\<close> loop of \<^verbatim>\<open>read\<close>. Each round checks the index before it
  touches the byte. \<open>bitsDone\<close> is the local \<^verbatim>\<open>bitsRead\<close> of the source (a byte).
\<close>

function read_loop :: "BitData \<Rightarrow> 'a::len word \<Rightarrow> uint \<Rightarrow> int8 \<Rightarrow> byte \<Rightarrow> error + 'a word" where
  "read_loop d val idx bitsRemain bitsDone =
     (if 0 < sint bitsRemain then
        (if length d \<le> unat idx then Inl ErrUnexpectedEOF
         else
           let v = push_bit (unat bitsDone) (ucast (d ! unat idx) :: 'a word);
               m = push_bit (unat bitsDone) (maskT bitsRemain :: 'a word)
           in read_loop d (val OR (v AND m)) (idx + 1) (bitsRemain - 8) (bitsDone + 8))
      else Inr val)"
  by pat_completeness auto
termination
proof (relation "measure (\<lambda>(d, val, idx, bitsRemain, bitsDone). nat (sint bitsRemain))")
  show "wf (measure (\<lambda>(d :: BitData, val :: 'a word, idx :: uint, bitsRemain :: int8,
      bitsDone :: byte). nat (sint bitsRemain)))"
    by simp
next
  fix d :: BitData and val :: "'a word" and idx :: uint and bitsRemain :: int8
    and bitsDone :: byte and v m :: "'a word"
  assume pos: "0 < sint bitsRemain"
  have "sint bitsRemain < 128"
    using sint_less [of bitsRemain] by simp
  with pos have "sint (bitsRemain - 8) = sint bitsRemain - 8"
    by (simp add: sint_word_diff signed_take_bit_int_eq_self)
  with pos show "((d, val OR (v AND m), idx + 1, bitsRemain - 8, bitsDone + 8),
      (d, val, idx, bitsRemain, bitsDone))
      \<in> measure (\<lambda>(d, val, idx, bitsRemain, bitsDone). nat (sint bitsRemain))"
    by simp
qed

declare read_loop.simps [simp del]

text \<open>
  \<^verbatim>\<open>func read[T integer](r *Reader, bitCount byte) (T, error)\<close>. The Go function returns
  the pair \<open>(0, err)\<close> on failure; the model returns \<open>Inl err\<close>, and the callers that
  need the value of a failed call take 0. The cursor is written only on the last line
  of the source, so every failing branch returns the reader as it was.
\<close>

definition read :: "Reader \<Rightarrow> byte \<Rightarrow> (error + 'a::len word) \<times> Reader" where
  "read r bitCount =
     (if bitCount = 0 then (Inr 0, r)
      else
        let idx = bitsRead r div 8;
            ofs = bitsRead r mod 8;
            bitsRemain = (bitCount :: int8);
            res =
              (if 0 < ofs then
                 (if length (rdata r) \<le> unat idx then Inl ErrUnexpectedEOF
                  else
                    let val = ucast (drop_bit (unat ofs) (rdata r ! unat idx)) AND maskT bitCount;
                        bits = (8 - ucast ofs :: int8)
                    in read_loop (rdata r) val (idx + 1) (bitsRemain - bits) (0 + bits))
               else read_loop (rdata r) 0 idx bitsRemain 0)
        in case res of
             Inl e \<Rightarrow> (Inl e, r)
           | Inr val \<Rightarrow> (Inr val, r\<lparr>bitsRead := bitsRead r + ucast bitCount\<rparr>))"

section \<open>Writer\<close>

text \<open>
  The methods of \<^verbatim>\<open>*Writer\<close> take the writer and return the writer after the call, or
  \<open>None\<close> where \<^verbatim>\<open>write\<close> panics. \<^verbatim>\<open>WriteBool\<close> writes one bit of the byte 1 or 0.
\<close>

definition NewWriter :: Writer where
  "NewWriter = \<lparr>wdata = [], bitsWritten = 0\<rparr>"

definition Writer_BitData :: "Writer \<Rightarrow> BitData" where
  "Writer_BitData w = wdata w"

definition Writer_WriteBool :: "Writer \<Rightarrow> bool \<Rightarrow> Writer option" where
  "Writer_WriteBool w v = (if v then writeT w (1 :: byte) 1 else writeT w (0 :: byte) 1)"

definition Writer_Write8 :: "Writer \<Rightarrow> 8 word \<Rightarrow> byte \<Rightarrow> Writer option" where
  "Writer_Write8 w v bitCount = writeT w v bitCount"

definition Writer_Write16 :: "Writer \<Rightarrow> 16 word \<Rightarrow> byte \<Rightarrow> Writer option" where
  "Writer_Write16 w v bitCount = writeT w v bitCount"

definition Writer_Write32 :: "Writer \<Rightarrow> 32 word \<Rightarrow> byte \<Rightarrow> Writer option" where
  "Writer_Write32 w v bitCount = writeT w v bitCount"

definition Writer_Write64 :: "Writer \<Rightarrow> 64 word \<Rightarrow> byte \<Rightarrow> Writer option" where
  "Writer_Write64 w v bitCount = writeT w v bitCount"

section \<open>Reader\<close>

text \<open>
  The methods of \<^verbatim>\<open>*Reader\<close> return their result (the error or the value) and the reader
  after the call. \<^verbatim>\<open>Skip\<close> adds to the cursor in \<^verbatim>\<open>uint\<close> arithmetic and checks nothing;
  \<^verbatim>\<open>Read8\<close> to \<^verbatim>\<open>Read64\<close> compare the bit count with their width before they call
  \<^verbatim>\<open>read\<close>.
\<close>

definition NewReader :: "BitData \<Rightarrow> Reader" where
  "NewReader d = \<lparr>rdata = d, bitsRead = 0\<rparr>"

definition Reader_Skip :: "Reader \<Rightarrow> uint \<Rightarrow> Reader" where
  "Reader_Skip r bitCount = r\<lparr>bitsRead := bitsRead r + bitCount\<rparr>"

definition Reader_ReadBool :: "Reader \<Rightarrow> (error + bool) \<times> Reader" where
  "Reader_ReadBool r =
     (case (read r 1 :: (error + byte) \<times> Reader) of
        (Inl e, r') \<Rightarrow> (Inl e, r')
      | (Inr v, r') \<Rightarrow> (Inr (v \<noteq> 0), r'))"

definition Reader_Read8 :: "Reader \<Rightarrow> byte \<Rightarrow> (error + 8 word) \<times> Reader" where
  "Reader_Read8 r bitCount =
     (if 8 < bitCount then (Inl ErrBitCountTooBig, r) else read r bitCount)"

definition Reader_Read16 :: "Reader \<Rightarrow> byte \<Rightarrow> (error + 16 word) \<times> Reader" where
  "Reader_Read16 r bitCount =
     (if 16 < bitCount then (Inl ErrBitCountTooBig, r) else read r bitCount)"

definition Reader_Read32 :: "Reader \<Rightarrow> byte \<Rightarrow> (error + 32 word) \<times> Reader" where
  "Reader_Read32 r bitCount =
     (if 32 < bitCount then (Inl ErrBitCountTooBig, r) else read r bitCount)"

definition Reader_Read64 :: "Reader \<Rightarrow> byte \<Rightarrow> (error + 64 word) \<times> Reader" where
  "Reader_Read64 r bitCount =
     (if 64 < bitCount then (Inl ErrBitCountTooBig, r) else read r bitCount)"

section \<open>ReaderError: the sticky reader\<close>

text \<open>
  \<^verbatim>\<open>ReaderError\<close> holds a \<^verbatim>\<open>Reader\<close> by value and an \<^verbatim>\<open>error\<close> (\<open>None\<close> is Go's \<^verbatim>\<open>nil\<close>).
  Each read has a named result \<open>v\<close>, zero at entry, and does
  \<^verbatim>\<open>v, r.err = r.reader.ReadN(bitCount)\<close> only while \<^verbatim>\<open>r.err == nil\<close>; a failing
  \<^verbatim>\<open>Reader\<close> call returns the zero value with its error.
\<close>

definition NewReaderError :: "BitData \<Rightarrow> ReaderError" where
  "NewReaderError d = \<lparr>reader = NewReader d, err = None\<rparr>"

definition ReaderError_Error :: "ReaderError \<Rightarrow> error option" where
  "ReaderError_Error r = err r"

definition ReaderError_Skip :: "ReaderError \<Rightarrow> uint \<Rightarrow> ReaderError" where
  "ReaderError_Skip r bitCount = r\<lparr>reader := Reader_Skip (reader r) bitCount\<rparr>"

definition ReaderError_ReadBool :: "ReaderError \<Rightarrow> bool \<times> ReaderError" where
  "ReaderError_ReadBool r =
     (if err r = None then
        (case Reader_ReadBool (reader r) of
           (Inl e, r') \<Rightarrow> (False, \<lparr>reader = r', err = Some e\<rparr>)
         | (Inr v, r') \<Rightarrow> (v, \<lparr>reader = r', err = None\<rparr>))
      else (False, r))"

definition ReaderError_Read8 :: "ReaderError \<Rightarrow> byte \<Rightarrow> 8 word \<times> ReaderError" where
  "ReaderError_Read8 r bitCount =
     (if err r = None then
        (case Reader_Read8 (reader r) bitCount of
           (Inl e, r') \<Rightarrow> (0, \<lparr>reader = r', err = Some e\<rparr>)
         | (Inr v, r') \<Rightarrow> (v, \<lparr>reader = r', err = None\<rparr>))
      else (0, r))"

definition ReaderError_Read16 :: "ReaderError \<Rightarrow> byte \<Rightarrow> 16 word \<times> ReaderError" where
  "ReaderError_Read16 r bitCount =
     (if err r = None then
        (case Reader_Read16 (reader r) bitCount of
           (Inl e, r') \<Rightarrow> (0, \<lparr>reader = r', err = Some e\<rparr>)
         | (Inr v, r') \<Rightarrow> (v, \<lparr>reader = r', err = None\<rparr>))
      else (0, r))"

definition ReaderError_Read32 :: "ReaderError \<Rightarrow> byte \<Rightarrow> 32 word \<times> ReaderError" where
  "ReaderError_Read32 r bitCount =
     (if err r = None then
        (case Reader_Read32 (reader r) bitCount of
           (Inl e, r') \<Rightarrow> (0, \<lparr>reader = r', err = Some e\<rparr>)
         | (Inr v, r') \<Rightarrow> (v, \<lparr>reader = r', err = None\<rparr>))
      else (0, r))"

definition ReaderError_Read64 :: "ReaderError \<Rightarrow> byte \<Rightarrow> 64 word \<times> ReaderError" where
  "ReaderError_Read64 r bitCount =
     (if err r = None then
        (case Reader_Read64 (reader r) bitCount of
           (Inl e, r') \<Rightarrow> (0, \<lparr>reader = r', err = Some e\<rparr>)
         | (Inr v, r') \<Rightarrow> (v, \<lparr>reader = r', err = None\<rparr>))
      else (0, r))"

section \<open>Sequences of calls\<close>

text \<open>
  A caller's program is a list of calls. \<open>wcall\<close> names one call of a \<^verbatim>\<open>Writer\<close> method
  with its arguments, \<open>rcall\<close> one call of a \<^verbatim>\<open>Reader\<close> (or \<^verbatim>\<open>ReaderError\<close>) method,
  and \<open>rval\<close> the value a read hands back, tagged with the container it came in.
\<close>

datatype wcall =
    WriteBool bool
  | Write8 "8 word" byte
  | Write16 "16 word" byte
  | Write32 "32 word" byte
  | Write64 "64 word" byte

datatype rcall =
    Skip uint
  | ReadBool
  | Read8 byte
  | Read16 byte
  | Read32 byte
  | Read64 byte

datatype rval =
    VSkip
  | VBool bool
  | V8 "8 word"
  | V16 "16 word"
  | V32 "32 word"
  | V64 "64 word"

fun Writer_call :: "Writer \<Rightarrow> wcall \<Rightarrow> Writer option" where
  "Writer_call w (WriteBool v) = Writer_WriteBool w v"
| "Writer_call w (Write8 v n) = Writer_Write8 w v n"
| "Writer_call w (Write16 v n) = Writer_Write16 w v n"
| "Writer_call w (Write32 v n) = Writer_Write32 w v n"
| "Writer_call w (Write64 v n) = Writer_Write64 w v n"

fun Writer_calls :: "Writer \<Rightarrow> wcall list \<Rightarrow> Writer option" where
  "Writer_calls w [] = Some w"
| "Writer_calls w (c # cs) =
     (case Writer_call w c of None \<Rightarrow> None | Some w' \<Rightarrow> Writer_calls w' cs)"

fun Reader_call :: "Reader \<Rightarrow> rcall \<Rightarrow> (error + rval) \<times> Reader" where
  "Reader_call r (Skip n) = (Inr VSkip, Reader_Skip r n)"
| "Reader_call r ReadBool =
     (case Reader_ReadBool r of
        (Inl e, r') \<Rightarrow> (Inl e, r')
      | (Inr v, r') \<Rightarrow> (Inr (VBool v), r'))"
| "Reader_call r (Read8 n) =
     (case Reader_Read8 r n of
        (Inl e, r') \<Rightarrow> (Inl e, r')
      | (Inr v, r') \<Rightarrow> (Inr (V8 v), r'))"
| "Reader_call r (Read16 n) =
     (case Reader_Read16 r n of
        (Inl e, r') \<Rightarrow> (Inl e, r')
      | (Inr v, r') \<Rightarrow> (Inr (V16 v), r'))"
| "Reader_call r (Read32 n) =
     (case Reader_Read32 r n of
        (Inl e, r') \<Rightarrow> (Inl e, r')
      | (Inr v, r') \<Rightarrow> (Inr (V32 v), r'))"
| "Reader_call r (Read64 n) =
     (case Reader_Read64 r n of
        (Inl e, r') \<Rightarrow> (Inl e, r')
      | (Inr v, r') \<Rightarrow> (Inr (V64 v), r'))"

text \<open>All calls are made, whatever the earlier ones returned; the results are collected.\<close>

fun Reader_calls :: "Reader \<Rightarrow> rcall list \<Rightarrow> (error + rval) list \<times> Reader" where
  "Reader_calls r [] = ([], r)"
| "Reader_calls r (c # cs) =
     (case Reader_call r c of (x, r') \<Rightarrow>
        (case Reader_calls r' cs of (xs, r'') \<Rightarrow> (x # xs, r'')))"

fun ReaderError_call :: "ReaderError \<Rightarrow> rcall \<Rightarrow> rval \<times> ReaderError" where
  "ReaderError_call r (Skip n) = (VSkip, ReaderError_Skip r n)"
| "ReaderError_call r ReadBool = (case ReaderError_ReadBool r of (x, r') \<Rightarrow> (VBool x, r'))"
| "ReaderError_call r (Read8 n) = (case ReaderError_Read8 r n of (x, r') \<Rightarrow> (V8 x, r'))"
| "ReaderError_call r (Read16 n) = (case ReaderError_Read16 r n of (x, r') \<Rightarrow> (V16 x, r'))"
| "ReaderError_call r (Read32 n) = (case ReaderError_Read32 r n of (x, r') \<Rightarrow> (V32 x, r'))"
| "ReaderError_call r (Read64 n) = (case ReaderError_Read64 r n of (x, r') \<Rightarrow> (V64 x, r'))"

fun ReaderError_calls :: "ReaderError \<Rightarrow> rcall list \<Rightarrow> rval list \<times> ReaderError" where
  "ReaderError_calls r [] = ([], r)"
| "ReaderError_calls r (c # cs) =
     (case ReaderError_call r c of (x, r') \<Rightarrow>
        (case ReaderError_calls r' cs of (xs, r'') \<Rightarrow> (x # xs, r'')))"

section \<open>Vocabulary of the specification\<close>

text \<open>
  The spec speaks of bit positions in the packed byte sequence: bit \<open>k\<close> of a buffer
  is bit \<open>k mod 8\<close> (counted from the least significant one) of byte \<open>k div 8\<close>, and a
  position beyond the last byte holds no bit.
\<close>

definition bitAt :: "BitData \<Rightarrow> nat \<Rightarrow> bool" where
  "bitAt d k = (k div 8 < length d \<and> bit (d ! (k div 8)) (k mod 8))"

text \<open>
  The \<open>n\<close> bits that start at position \<open>c\<close>, assembled least significant first into a
  container: what a read of \<open>n\<close> bits at cursor \<open>c\<close> is meant to return.
\<close>

definition bits_at :: "BitData \<Rightarrow> nat \<Rightarrow> nat \<Rightarrow> 'a::len word" where
  "bits_at d c n = horner_sum of_bool 2 (map (\<lambda>j. bitAt d (c + j)) [0..<n])"

text \<open>
  The bit count a \<^verbatim>\<open>Reader\<close> call asks for and the width of the container it reads into
  (\<^verbatim>\<open>ReadBool\<close> is a one-bit read). \<^verbatim>\<open>Skip\<close> reads nothing.
\<close>

fun rcall_bits :: "rcall \<Rightarrow> nat" where
  "rcall_bits (Skip k) = 0"
| "rcall_bits ReadBool = 1"
| "rcall_bits (Read8 n) = unat n"
| "rcall_bits (Read16 n) = unat n"
| "rcall_bits (Read32 n) = unat n"
| "rcall_bits (Read64 n) = unat n"

fun rcall_width :: "rcall \<Rightarrow> nat" where
  "rcall_width (Skip k) = 0"
| "rcall_width ReadBool = 1"
| "rcall_width (Read8 n) = 8"
| "rcall_width (Read16 n) = 16"
| "rcall_width (Read32 n) = 32"
| "rcall_width (Read64 n) = 64"

text \<open>
  The zero value of the container a call returns, and the total distance the \<^verbatim>\<open>Skip\<close>
  calls of a program move the cursor (in \<^verbatim>\<open>uint\<close> arithmetic).
\<close>

fun zero_result :: "rcall \<Rightarrow> rval" where
  "zero_result (Skip k) = VSkip"
| "zero_result ReadBool = VBool False"
| "zero_result (Read8 n) = V8 0"
| "zero_result (Read16 n) = V16 0"
| "zero_result (Read32 n) = V32 0"
| "zero_result (Read64 n) = V64 0"

fun skipped :: "rcall list \<Rightarrow> uint" where
  "skipped [] = 0"
| "skipped (Skip k # cs) = k + skipped cs"
| "skipped (c # cs) = skipped cs"

text \<open>
  The bytes a write appends: byte \<open>i\<close> of the \<open>k\<close> bytes holds bits \<open>8 * i\<close> to \<open>8 * i + 7\<close>
  of the value, least significant byte first.
\<close>

definition le_bytes :: "'a::len word \<Rightarrow> nat \<Rightarrow> BitData" where
  "le_bytes v k = map (\<lambda>i. ucast (drop_bit (8 * i) v)) [0..<k]"

text \<open>
  The invariant of a \<^verbatim>\<open>Writer\<close>: the buffer has exactly the bytes the bit cursor needs,
  and no bit is set at or beyond the cursor.
\<close>

definition Writer_inv :: "Writer \<Rightarrow> bool" where
  "Writer_inv w \<longleftrightarrow>
     length (wdata w) = (unat (bitsWritten w) + 7) div 8
     \<and> (\<forall>p\<ge>unat (bitsWritten w). \<not> bitAt (wdata w) p)"

text \<open>
  The bit count a \<^verbatim>\<open>Writer\<close> call passes, the width of its container (\<^verbatim>\<open>WriteBool\<close> writes
  one bit of a byte that is 0 or 1), and bit \<open>j\<close> of the value it passes.
\<close>

fun wcall_bits :: "wcall \<Rightarrow> nat" where
  "wcall_bits (WriteBool v) = 1"
| "wcall_bits (Write8 v n) = unat n"
| "wcall_bits (Write16 v n) = unat n"
| "wcall_bits (Write32 v n) = unat n"
| "wcall_bits (Write64 v n) = unat n"

fun wcall_width :: "wcall \<Rightarrow> nat" where
  "wcall_width (WriteBool v) = 1"
| "wcall_width (Write8 v n) = 8"
| "wcall_width (Write16 v n) = 16"
| "wcall_width (Write32 v n) = 32"
| "wcall_width (Write64 v n) = 64"

fun wcall_bit :: "wcall \<Rightarrow> nat \<Rightarrow> bool" where
  "wcall_bit (WriteBool v) j = (v \<and> j = 0)"
| "wcall_bit (Write8 v n) j = bit v j"
| "wcall_bit (Write16 v n) j = bit v j"
| "wcall_bit (Write32 v n) j = bit v j"
| "wcall_bit (Write64 v n) j = bit v j"

text \<open>
  For the round trip: the read that mirrors a write (same container, same bit count),
  the value that read is expected to return, and whether the value passed to a write is
  already masked to its bit count (\<^verbatim>\<open>v & mask[T](bitCount) == v\<close>).
\<close>

fun read_of :: "wcall \<Rightarrow> rcall" where
  "read_of (WriteBool v) = ReadBool"
| "read_of (Write8 v n) = Read8 n"
| "read_of (Write16 v n) = Read16 n"
| "read_of (Write32 v n) = Read32 n"
| "read_of (Write64 v n) = Read64 n"

fun value_of :: "wcall \<Rightarrow> rval" where
  "value_of (WriteBool v) = VBool v"
| "value_of (Write8 v n) = V8 v"
| "value_of (Write16 v n) = V16 v"
| "value_of (Write32 v n) = V32 v"
| "value_of (Write64 v n) = V64 v"

fun wcall_masked :: "wcall \<Rightarrow> bool" where
  "wcall_masked (WriteBool v) = True"
| "wcall_masked (Write8 v n) = (v AND maskT n = v)"
| "wcall_masked (Write16 v n) = (v AND maskT n = v)"
| "wcall_masked (Write32 v n) = (v AND maskT n = v)"
| "wcall_masked (Write64 v n) = (v AND maskT n = v)"

section \<open>Words, signed bytes and bit positions\<close>

lemma maskT_eq_mask: "(maskT n :: 'a::len word) = mask (unat n)"
  by (simp add: maskT_def mask_eq_exp_minus_1 push_bit_eq_mult)

lemma bit_bits_at:
  "bit (bits_at d c n :: 'a::len word) j \<longleftrightarrow> j < n \<and> j < LENGTH('a) \<and> bitAt d (c + j)"
  by (auto simp add: bits_at_def bit_horner_sum_bit_word_iff)

lemma bitAt_byte: "x < 8 \<Longrightarrow> bitAt d (8 * i + x) = (i < length d \<and> bit (d ! i) x)"
  by (simp add: bitAt_def)

lemma sint_diff_int8:
  fixes a b :: int8
  assumes "- 128 \<le> sint a - sint b" and "sint a - sint b < 128"
  shows "sint (a - b) = sint a - sint b"
  using assms by (simp add: sint_word_diff signed_take_bit_int_eq_self)

lemma sint_sub8: 
  fixes b :: int8
  assumes "0 < sint b"
  shows "sint (b - 8) = sint b - 8"
proof -
  have "sint b < 128"
    using sint_less [of b] by simp
  with assms show ?thesis
    by (simp add: sint_diff_int8)
qed

lemma sint_byte_small:
  fixes n :: byte
  assumes "unat n \<le> 127"
  shows "sint n = int (unat n)"
proof -
  have le: "uint n \<le> 127"
    using assms unfolding uint_nat by linarith
  have "sint n = signed_take_bit 7 (uint n)"
    using sint_uint [of n] by simp
  also have "\<dots> = uint n"
  proof (rule signed_take_bit_int_eq_self)
    show "- (2 ^ 7) \<le> uint n"
      by (rule order_trans [of _ 0]) simp_all
    show "uint n < 2 ^ 7"
      using le by simp
  qed
  finally show ?thesis
    by (simp only: uint_nat)
qed

lemma sint_pos_unat:
  fixes b :: int8
  assumes "0 < sint b"
  shows "unat b = nat (sint b)"
proof -
  have "sint b < 128"
    using sint_less [of b] by simp
  with assms have "take_bit 8 (sint b) = sint b"
    by (simp add: take_bit_int_eq_self)
  then have "uint b = sint b"
    using uint_sint [of b] by simp
  then show ?thesis
    unfolding unat_eq_nat_uint by simp
qed


section \<open>The read engine meets its specification\<close>

lemma read_loop_done: "\<not> 0 < sint b \<Longrightarrow> read_loop d val idx b t = Inr val"
  by (subst read_loop.simps) simp

lemma read_loop_eof:
  "0 < sint b \<Longrightarrow> length d \<le> unat idx \<Longrightarrow> read_loop d val idx b t = Inl ErrUnexpectedEOF"
  by (subst read_loop.simps) simp

lemma read_loop_step:
  "0 < sint b \<Longrightarrow> unat idx < length d \<Longrightarrow>
   read_loop d val idx b t =
   read_loop d (val OR (push_bit (unat t) (ucast (d ! unat idx)) AND push_bit (unat t) (maskT b)))
     (idx + 1) (b - 8) (t + 8)"
  by (subst read_loop.simps) (simp add: Let_def)

lemma chunk_bits:
  assumes "0 < m" and "i < length d"
  shows "(push_bit t (ucast (d ! i)) AND push_bit t (mask m) :: 'a::len word)
           = push_bit t (bits_at d (8 * i) (min m 8))"
proof (rule bit_word_eqI)
  fix j
  assume j: "j < LENGTH('a)"
  show "bit (push_bit t (ucast (d ! i)) AND push_bit t (mask m) :: 'a word) j
      = bit (push_bit t (bits_at d (8 * i) (min m 8)) :: 'a word) j"
  proof (cases "t \<le> j")
    case False
    then show ?thesis
      by (simp add: bit_simps)
  next
    case True
    then obtain x where "j = t + x"
      using le_Suc_ex by blast
    then show ?thesis
      using assms j bit_imp_le_length [of "d ! i" x]
      by (auto simp add: bit_simps bit_bits_at bitAt_byte)
  qed
qed

lemma bits_at_split:
  assumes "8 < m"
  shows "(push_bit t (bits_at d (8 * i) (min m 8))
            OR push_bit (t + 8) (bits_at d (8 * (i + 1)) (m - 8)) :: 'a::len word)
       = push_bit t (bits_at d (8 * i) m)"
proof (rule bit_word_eqI)
  fix j
  assume j: "j < LENGTH('a)"
  show "bit (push_bit t (bits_at d (8 * i) (min m 8))
            OR push_bit (t + 8) (bits_at d (8 * (i + 1)) (m - 8)) :: 'a word) j
      = bit (push_bit t (bits_at d (8 * i) m) :: 'a word) j"
  proof (cases "t \<le> j")
    case False
    then show ?thesis
      by (simp add: bit_simps)
  next
    case True
    then obtain x where x: "j = t + x"
      using le_Suc_ex by blast
    show ?thesis
    proof (cases "x < 8")
      case True
      with x assms j show ?thesis
        by (auto simp add: bit_simps bit_bits_at)
    next
      case False
      then obtain y where "x = 8 + y"
        using le_Suc_ex [of 8 x] by auto
      with x assms j show ?thesis
        by (auto simp add: bit_simps bit_bits_at ac_simps)
    qed
  qed
qed


lemma read_loop_spec:
  fixes val :: "'a::len word"
  assumes "0 < sint b \<longrightarrow> unat t + nat (sint b) \<le> 255 \<and> unat idx + nat (sint b) < 2 ^ 64"
  shows "read_loop d val idx b t =
     (if sint b \<le> 0 then Inr val
      else if unat idx + (nat (sint b) + 7) div 8 \<le> length d
           then Inr (val OR push_bit (unat t) (bits_at d (8 * unat idx) (nat (sint b))))
           else Inl ErrUnexpectedEOF)"
  using assms
proof (induction d val idx b t rule: read_loop.induct)
  case (1 d val idx b t)
  show ?case
  proof (cases "0 < sint b")
    case False
    then show ?thesis
      by (simp add: read_loop_done)
  next
    case pos: True
    let ?m = "nat (sint b)"
    from pos "1.prems" have bnd: "unat t + ?m \<le> 255" "unat idx + ?m < 2 ^ 64"
      by simp_all
    from pos have m_pos: "0 < ?m"
      by simp
    show ?thesis
    proof (cases "length d \<le> unat idx")
      case True
      moreover from m_pos have "1 \<le> (?m + 7) div 8"
        by simp
      ultimately show ?thesis
        using pos by (simp add: read_loop_eof)
    next
      case nend: False
      then have lt: "unat idx < length d"
        by simp
      define val' where "val' =
        val OR (push_bit (unat t) (ucast (d ! unat idx)) AND push_bit (unat t) (maskT b))"
      have step: "read_loop d val idx b t = read_loop d val' (idx + 1) (b - 8) (t + 8)"
        using pos lt by (simp add: read_loop_step val'_def)
      have val'_eq: "val' = val OR push_bit (unat t) (bits_at d (8 * unat idx) (min ?m 8))"
        using chunk_bits [OF m_pos lt, of "unat t", where 'a = 'a] pos
        by (simp add: val'_def maskT_eq_mask sint_pos_unat)
      have sb: "sint (b - 8) = sint b - 8"
        using pos by (rule sint_sub8)
      show ?thesis
      proof (cases "sint b \<le> 8")
        case True
        then have "read_loop d val' (idx + 1) (b - 8) (t + 8) = Inr val'"
          by (simp add: read_loop_done sb)
        moreover from True m_pos have "(?m + 7) div 8 = 1" "min ?m 8 = ?m"
          by simp_all
        ultimately show ?thesis
          using pos lt step val'_eq by simp
      next
        case big: False
        have "unat idx + unat (1 :: uint) < 2 ^ LENGTH(64)"
          using bnd(2) m_pos by simp
        then have idx1: "unat (idx + 1) = unat idx + 1"
          using unat_add_lem [THEN iffD1, of idx 1] by simp
        have "unat t + unat (8 :: byte) < 2 ^ LENGTH(8)"
          using bnd(1) big by simp
        then have t8: "unat (t + 8) = unat t + 8"
          using unat_add_lem [THEN iffD1, of t 8] by simp
        have m8: "nat (sint (b - 8)) = ?m - 8"
          by (simp add: sb)
        have pre: "0 < sint (b - 8) \<longrightarrow>
            unat (t + 8) + nat (sint (b - 8)) \<le> 255 \<and> unat (idx + 1) + nat (sint (b - 8)) < 2 ^ 64"
          using bnd big unfolding idx1 t8 m8 by linarith
        have "read_loop d val' (idx + 1) (b - 8) (t + 8) =
          (if sint (b - 8) \<le> 0 then Inr val'
           else if unat (idx + 1) + (nat (sint (b - 8)) + 7) div 8 \<le> length d
           then Inr (val' OR push_bit (unat (t + 8))
                  (bits_at d (8 * unat (idx + 1)) (nat (sint (b - 8)))))
           else Inl ErrUnexpectedEOF)"
          using "1.IH" [OF pos nend refl refl pre] unfolding val'_def .
        moreover have "\<not> sint (b - 8) \<le> 0"
          using big by (simp add: sb)
        ultimately have ih: "read_loop d val' (idx + 1) (b - 8) (t + 8) =
          (if unat idx + 1 + (?m - 8 + 7) div 8 \<le> length d
           then Inr (val' OR push_bit (unat t + 8) (bits_at d (8 * (unat idx + 1)) (?m - 8)))
           else Inl ErrUnexpectedEOF)"
          by (simp only: idx1 t8 m8 if_False)
        have cnt: "unat idx + 1 + (?m - 8 + 7) div 8 = unat idx + (?m + 7) div 8"
          using big by simp
        have "val' OR push_bit (unat t + 8) (bits_at d (8 * (unat idx + 1)) (?m - 8))
            = val OR push_bit (unat t) (bits_at d (8 * unat idx) ?m)"
          using bits_at_split [of ?m "unat t" d "unat idx", where 'a = 'a] big
          by (simp add: val'_eq or.assoc)
        then show ?thesis
          using pos step ih cnt by simp
      qed
    qed
  qed
qed

lemma bits_at_append:
  "(bits_at d c k OR push_bit k (bits_at d (c + k) m) :: 'a::len word) = bits_at d c (k + m)"
proof (rule bit_word_eqI)
  fix j
  assume j: "j < LENGTH('a)"
  show "bit (bits_at d c k OR push_bit k (bits_at d (c + k) m) :: 'a word) j
      = bit (bits_at d c (k + m) :: 'a word) j"
  proof (cases "k \<le> j")
    case False
    then show ?thesis
      using j by (auto simp add: bit_simps bit_bits_at)
  next
    case True
    then obtain x where "j = k + x"
      using le_Suc_ex by blast
    then show ?thesis
      using j by (auto simp add: bit_simps bit_bits_at ac_simps)
  qed
qed

lemma first_chunk:
  assumes "ofs < 8" and "i < length d"
  shows "(ucast (drop_bit ofs (d ! i)) AND mask n :: 'a::len word)
           = bits_at d (8 * i + ofs) (min n (8 - ofs))"
proof (rule bit_word_eqI)
  fix j
  assume j: "j < LENGTH('a)"
  show "bit (ucast (drop_bit ofs (d ! i)) AND mask n :: 'a word) j
      = bit (bits_at d (8 * i + ofs) (min n (8 - ofs)) :: 'a word) j"
  proof (cases "ofs + j < 8")
    case True
    then have "bitAt d (8 * i + ofs + j) = bit (d ! i) (ofs + j)"
      using assms bitAt_byte [of "ofs + j" d i] by (simp add: add.assoc)
    with True show ?thesis
      using j by (auto simp add: bit_simps bit_bits_at)
  next
    case False
    with bit_imp_le_length [of "d ! i" "ofs + j"] have "\<not> bit (d ! i) (ofs + j)"
      by auto
    with False show ?thesis
      using j by (auto simp add: bit_simps bit_bits_at)
  qed
qed

lemma ofs_bits:
  fixes c :: uint
  assumes "0 < c mod 8"
  shows "unat (8 - ucast (c mod 8) :: int8) = 8 - unat c mod 8" 
    and "sint (8 - ucast (c mod 8) :: int8) = 8 - int (unat c mod 8)"
    and "0 < unat c mod 8"
proof -
  have m: "unat (c mod 8) = unat c mod 8"
    by (simp add: unat_mod_distrib)
  from assms show pos: "0 < unat c mod 8"
    by (simp add: word_less_nat_alt m)
  have lt: "unat c mod 8 < 8"
    by simp
  have u: "unat (ucast (c mod 8) :: int8) = unat c mod 8"
    using lt m by (simp add: unsigned_ucast_eq take_bit_nat_eq_self)
  have "(ucast (c mod 8) :: int8) \<le> 8"
    using lt u by (simp add: word_le_nat_alt)
  then show u8: "unat (8 - ucast (c mod 8) :: int8) = 8 - unat c mod 8"
    using u by (simp add: unat_sub)
  then have "unat (8 - ucast (c mod 8) :: int8) \<le> 127"
    by simp
  then show "sint (8 - ucast (c mod 8) :: int8) = 8 - int (unat c mod 8)"
    using sint_byte_small [of "8 - ucast (c mod 8)"] u8 lt by simp
qed


lemma uint_div8_bound:
  fixes c :: uint
  shows "unat (c div 8) = unat c div 8" and "unat c div 8 + 200 < 2 ^ 64"
proof -
  show "unat (c div 8) = unat c div 8"
    by (simp add: unat_div_distrib)
  have "unat c < 2 ^ 64"
    using unsigned_less [of c] by simp
  then show "unat c div 8 + 200 < 2 ^ 64"
    by simp
qed

lemma read_loop_spec_nat:
  fixes val :: "'a::len word"
  assumes "sint b = int m" and "0 < m" and "unat t + m \<le> 255" and "unat idx + m < 2 ^ 64"
  shows "read_loop d val idx b t =
     (if unat idx + (m + 7) div 8 \<le> length d
      then Inr (val OR push_bit (unat t) (bits_at d (8 * unat idx) m))
      else Inl ErrUnexpectedEOF)"
proof -
  have m: "nat (sint b) = m" and pos: "\<not> sint b \<le> 0"
    using assms(1,2) by simp_all
  have "0 < sint b \<longrightarrow> unat t + nat (sint b) \<le> 255 \<and> unat idx + nat (sint b) < 2 ^ 64"
    using assms(3,4) unfolding m by simp
  from read_loop_spec [OF this, of d val] show ?thesis
    by (simp only: m pos if_False)
qed

lemma read_spec:
  fixes r :: Reader and n :: byte
  assumes "n \<noteq> 0" and "unat n \<le> 127"
  shows "(read r n :: (error + 'a::len word) \<times> Reader) =
     (if unat (bitsRead r) + unat n \<le> 8 * length (rdata r)
      then (Inr (bits_at (rdata r) (unat (bitsRead r)) (unat n)),
            r\<lparr>bitsRead := bitsRead r + ucast n\<rparr>)
      else (Inl ErrUnexpectedEOF, r))"
proof -
  define c where "c = unat (bitsRead r)"
  define d where "d = rdata r"
  define i where "i = c div 8"
  define ofs where "ofs = c mod 8"
  have c_eq: "c = 8 * i + ofs"
    by (simp add: i_def ofs_def)
  have ofs_lt: "ofs < 8"
    by (simp add: ofs_def)
  have n_pos: "0 < unat n"
    using assms(1) by (simp add: unat_gt_0)
  have sn: "sint n = int (unat n)"
    using assms(2) by (rule sint_byte_small)
  have ui: "unat (bitsRead r div 8) = i"
    by (simp add: uint_div8_bound(1) i_def c_def)
  have ib: "i + 200 < 2 ^ 64"
    using uint_div8_bound(2) [of "bitsRead r"] by (simp add: i_def c_def)
  show ?thesis
  proof (cases "0 < bitsRead r mod 8")
    case False
    then have ofs0: "ofs = 0"
      by (simp add: word_less_nat_alt unat_mod_distrib ofs_def c_def)
    have "unat (0 :: byte) + unat n \<le> 255" and "unat (bitsRead r div 8) + unat n < 2 ^ 64"
      using assms(2) ib by (simp_all add: ui)
    from read_loop_spec_nat [OF sn n_pos this, of d "0 :: 'a word"]
    have loop: "(read_loop d 0 (bitsRead r div 8) n 0 :: error + 'a word) =
        (if i + (unat n + 7) div 8 \<le> length d then Inr (bits_at d (8 * i) (unat n))
         else Inl ErrUnexpectedEOF)"
      by (simp add: ui)
    have cond: "(i + (unat n + 7) div 8 \<le> length d) = (c + unat n \<le> 8 * length d)"
      using c_eq ofs0 by auto
    show ?thesis
      using False assms(1) loop cond c_eq ofs0
      by (simp add: read_def Let_def flip: d_def c_def)
  next
    case True
    note ob = ofs_bits [OF True]
    have uo: "unat (bitsRead r mod 8) = ofs"
      by (simp add: unat_mod_distrib ofs_def c_def)
    have ofs_pos: "0 < ofs"
      using ob(3) by (simp add: ofs_def c_def)
    have ubits: "unat (8 - ucast (bitsRead r mod 8) :: int8) = 8 - ofs"
      using ob(1) by (simp add: ofs_def c_def)
    have sbits: "sint (8 - ucast (bitsRead r mod 8) :: int8) = 8 - int ofs"
      using ob(2) by (simp add: ofs_def c_def)
    show ?thesis
    proof (cases "length d \<le> i")
      case True
      then have "\<not> c + unat n \<le> 8 * length d"
        using c_eq n_pos by simp
      with True \<open>0 < bitsRead r mod 8\<close> assms(1) show ?thesis
        by (simp add: read_def Let_def ui flip: d_def c_def)
    next
      case False
      then have lt: "i < length d"
        by simp
      define val :: "'a word" where
        "val = ucast (drop_bit (unat (bitsRead r mod 8)) (d ! unat (bitsRead r div 8))) AND maskT n"
      define b' :: int8 where "b' = n - (8 - ucast (bitsRead r mod 8))"
      define k where "k = 8 - ofs"
      have val_eq: "val = bits_at d c (min (unat n) k)"
        using first_chunk [OF ofs_lt lt, of "unat n", where 'a = 'a]
        by (simp add: val_def uo ui maskT_eq_mask c_eq k_def)
      have ik: "int k = 8 - int ofs"
        using ofs_lt by (simp add: k_def)
      have "- 128 \<le> sint n - sint (8 - ucast (bitsRead r mod 8) :: int8)"
        and "sint n - sint (8 - ucast (bitsRead r mod 8) :: int8) < 128"
        unfolding sn sbits using assms(2) ofs_lt ofs_pos by linarith+
      from sint_diff_int8 [OF this] have sb': "sint b' = int (unat n) - int k"
        unfolding b'_def sn sbits ik .
      have rd: "(read r n :: (error + 'a word) \<times> Reader) =
          (case read_loop d val (bitsRead r div 8 + 1) b' (8 - ucast (bitsRead r mod 8)) of
             Inl e \<Rightarrow> (Inl e, r)
           | Inr v \<Rightarrow> (Inr v, r\<lparr>bitsRead := bitsRead r + ucast n\<rparr>))"
        using \<open>0 < bitsRead r mod 8\<close> assms(1) lt
        by (simp add: read_def Let_def ui val_def b'_def flip: d_def)
      show ?thesis
      proof (cases "unat n \<le> k")
        case True
        then have "\<not> 0 < sint b'"
          unfolding sb' by linarith
        then have "read_loop d val (bitsRead r div 8 + 1) b' (8 - ucast (bitsRead r mod 8)) = Inr val"
          by (rule read_loop_done)
        moreover have "c + unat n \<le> 8 * length d"
          using True lt c_eq ofs_lt unfolding k_def by linarith
        moreover have "min (unat n) k = unat n"
          using True by simp
        ultimately show ?thesis
          by (simp add: rd val_eq flip: d_def c_def)
      next
        case False
        define m where "m = unat n - k"
        have m_pos: "0 < m" and nk: "k + m = unat n"
          using False by (simp_all add: m_def)
        have sm: "sint b' = int m"
          using False unfolding sb' m_def by linarith
        have "unat (bitsRead r div 8) + unat (1 :: uint) < 2 ^ LENGTH(64)"
          using ib by (simp add: ui)
        then have i1: "unat (bitsRead r div 8 + 1) = i + 1"
          using unat_add_lem [THEN iffD1, of "bitsRead r div 8" 1] by (simp add: ui)
        have "unat (8 - ucast (bitsRead r mod 8) :: int8) + m \<le> 255"
          and "unat (bitsRead r div 8 + 1) + m < 2 ^ 64"
          using assms(2) ib nk ofs_pos by (simp_all add: ubits i1 k_def)
        from read_loop_spec_nat [OF sm m_pos this, of d val]
        have loop: "read_loop d val (bitsRead r div 8 + 1) b' (8 - ucast (bitsRead r mod 8)) =
            (if i + 1 + (m + 7) div 8 \<le> length d
             then Inr (val OR push_bit k (bits_at d (8 * (i + 1)) m))
             else Inl ErrUnexpectedEOF)"
          by (simp only: i1 ubits k_def)
        have "8 * (i + 1) = c + k"
          using c_eq ofs_lt by (simp add: k_def)
        moreover have "min (unat n) k = k"
          using False by simp
        ultimately have v: "val OR push_bit k (bits_at d (8 * (i + 1)) m) = bits_at d c (unat n)"
          using bits_at_append [of d c k m, where 'a = 'a] by (simp add: val_eq nk)
        have cond: "(i + 1 + (m + 7) div 8 \<le> length d) = (c + unat n \<le> 8 * length d)"
          using c_eq ofs_lt ofs_pos nk unfolding k_def by auto
        show ?thesis
          unfolding rd loop v cond by (simp flip: d_def c_def)
      qed
    qed
  qed
qed

section \<open>Reader calls\<close>

lemma Reader_call_spec:
  assumes "1 \<le> rcall_bits c" and "rcall_bits c \<le> rcall_width c"
  shows "\<exists>v. Reader_call r c =
     (if unat (bitsRead r) + rcall_bits c \<le> 8 * length (rdata r)
      then (Inr v, r\<lparr>bitsRead := bitsRead r + word_of_nat (rcall_bits c)\<rparr>)
      else (Inl ErrUnexpectedEOF, r))"
proof (cases c)
  case (Skip k)
  with assms show ?thesis
    by simp
next
  case ReadBool
  have "(1 :: byte) \<noteq> 0" and "unat (1 :: byte) \<le> 127"
    by simp_all
  from read_spec [OF this, of r, where 'a = 8] show ?thesis
    by (simp add: ReadBool Reader_ReadBool_def)
next
  case (Read8 n)
  with assms have "n \<noteq> 0" and "unat n \<le> 127" and "\<not> 8 < n"
    by (auto simp add: word_less_nat_alt)
  with read_spec [of n r, where 'a = 8] show ?thesis
    by (simp add: Read8 Reader_Read8_def)
next
  case (Read16 n)
  with assms have "n \<noteq> 0" and "unat n \<le> 127" and "\<not> 16 < n"
    by (auto simp add: word_less_nat_alt)
  with read_spec [of n r, where 'a = 16] show ?thesis
    by (simp add: Read16 Reader_Read16_def)
next
  case (Read32 n)
  with assms have "n \<noteq> 0" and "unat n \<le> 127" and "\<not> 32 < n"
    by (auto simp add: word_less_nat_alt)
  with read_spec [of n r, where 'a = 32] show ?thesis
    by (simp add: Read32 Reader_Read32_def)
next
  case (Read64 n)
  with assms have "n \<noteq> 0" and "unat n \<le> 127" and "\<not> 64 < n"
    by (auto simp add: word_less_nat_alt)
  with read_spec [of n r, where 'a = 64] show ?thesis
    by (simp add: Read64 Reader_Read64_def)
qed

lemma unat_bits_at: "unat (bits_at d c n :: 'a::len word) < 2 ^ n"
proof -
  have "take_bit n (bits_at d c n :: 'a word) = bits_at d c n"
    by (rule bit_word_eqI) (auto simp add: bit_simps bit_bits_at)
  then have "unat (bits_at d c n :: 'a word) = take_bit n (unat (bits_at d c n :: 'a word))"
    by (simp flip: unsigned_take_bit_eq)
  also have "\<dots> < 2 ^ n"
    by (rule take_bit_nat_less_exp)
  finally show ?thesis .
qed

lemma read_masked_generic:
  fixes v :: "'a::len word"
  assumes "read r n = (Inr v, r')" and "unat n \<le> 127"
  shows "unat v < 2 ^ unat n"
proof (cases "n = 0")
  case True
  with assms show ?thesis
    by (simp add: read_def)
next
  case False
  from read_spec [OF False assms(2), of r, where 'a = 'a] assms(1)
  have "v = bits_at (rdata r) (unat (bitsRead r)) (unat n)"
    by (simp split: if_splits)
  then show ?thesis
    by (simp add: unat_bits_at)
qed

lemma Reader_call_too_big:
  assumes "rcall_width c < rcall_bits c"
  shows "Reader_call r c = (Inl ErrBitCountTooBig, r)"
  using assms
  by (cases c)
    (simp_all add: Reader_Read8_def Reader_Read16_def Reader_Read32_def Reader_Read64_def
      word_less_nat_alt)

lemma read_rdata: "read r n = (x, r') \<Longrightarrow> rdata r' = rdata r"
  by (auto simp add: read_def Let_def split: if_splits sum.splits)

lemma Reader_call_rdata:
  assumes "Reader_call r c = (x, r')"
  shows "rdata r' = rdata r"
  using assms
  by (cases c)
    (auto simp add: Reader_Skip_def Reader_ReadBool_def Reader_Read8_def Reader_Read16_def
      Reader_Read32_def Reader_Read64_def
      split: prod.splits sum.splits if_splits dest: read_rdata)

lemma Reader_calls_rdata:
  "Reader_calls r cs = (xs, r') \<Longrightarrow> rdata r' = rdata r"
proof (induction cs arbitrary: r xs)
  case Nil
  then show ?case
    by simp
next
  case (Cons c cs)
  then show ?case
    by (auto split: prod.splits dest: Reader_call_rdata)
qed

section \<open>The sticky reader\<close>

lemma read_fail_state: "read r n = (Inl e, r') \<Longrightarrow> r' = r"
  by (auto simp add: read_def Let_def split: if_splits sum.splits)

lemma Reader_call_fail_state:
  assumes "Reader_call r c = (Inl e, r')"
  shows "r' = r"
  using assms
  by (cases c)
    (auto simp add: Reader_ReadBool_def Reader_Read8_def Reader_Read16_def
      Reader_Read32_def Reader_Read64_def
      split: prod.splits sum.splits if_splits dest: read_fail_state)

lemma ReaderError_call_first_failure:
  assumes "err r = None" and "fst (Reader_call (reader r) c) = Inl e"
  shows "ReaderError_call r c = (zero_result c, r\<lparr>err := Some e\<rparr>)"
proof -
  obtain r' where call: "Reader_call (reader r) c = (Inl e, r')"
    using assms(2) by (cases "Reader_call (reader r) c") auto
  then have "r' = reader r"
    by (rule Reader_call_fail_state)
  with call assms(1) show ?thesis
    by (cases c)
      (auto simp add: ReaderError_ReadBool_def ReaderError_Read8_def ReaderError_Read16_def
        ReaderError_Read32_def ReaderError_Read64_def
        split: prod.splits sum.splits)
qed

lemma ReaderError_call_frozen:
  assumes "err r = Some e"
  shows "ReaderError_call r c =
    (zero_result c, r\<lparr>reader := Reader_Skip (reader r) (skipped [c])\<rparr>)"
  using assms
  by (cases c)
    (simp_all add: ReaderError_Skip_def ReaderError_ReadBool_def ReaderError_Read8_def
      ReaderError_Read16_def ReaderError_Read32_def ReaderError_Read64_def Reader_Skip_def)

lemma skipped_Cons: "skipped (c # cs) = skipped [c] + skipped cs"
  by (cases c) simp_all

lemma ReaderError_calls_frozen:
  assumes "err r = Some e"
  shows "ReaderError_calls r cs =
    (map zero_result cs, r\<lparr>reader := Reader_Skip (reader r) (skipped cs)\<rparr>)"
  using assms
proof (induction cs arbitrary: r)
  case Nil
  then show ?case
    by (simp add: Reader_Skip_def)
next
  case (Cons c cs)
  let ?r1 = "r\<lparr>reader := Reader_Skip (reader r) (skipped [c])\<rparr>"
  have "err ?r1 = Some e"
    using Cons.prems by simp
  from Cons.IH [OF this] ReaderError_call_frozen [OF Cons.prems, of c]
  show ?case
    by (simp add: skipped_Cons [of c cs] Reader_Skip_def add.assoc)
qed

lemma unat_mask_le:
  assumes "n \<le> LENGTH('a::len)"
  shows "unat (mask n :: 'a word) = 2 ^ n - 1"
proof -
  have "(mask n :: 'a word) = take_bit n (- 1)"
    by simp
  then have "unat (mask n :: 'a word) = take_bit n (unat (- 1 :: 'a word))"
    by (simp only: unsigned_take_bit_eq)
  also have "\<dots> = take_bit n (mask LENGTH('a) :: nat)"
    by (simp only: unsigned_minus_1_eq_mask)
  also have "\<dots> = mask n"
    using assms by (intro bit_eqI) (auto simp add: bit_simps)
  finally show ?thesis
    by (simp add: mask_eq_exp_minus_1)
qed

lemma read_bits_generic:
  fixes v :: "'a::len word"
  assumes "read r n = (Inr v, r')" and "unat n \<le> 127"
  shows "\<forall>j\<ge>unat n. \<not> bit v j"
proof (cases "n = 0")
  case True
  with assms show ?thesis
    by (simp add: read_def)
next
  case False
  from read_spec [OF False assms(2), of r, where 'a = 'a] assms(1)
  have "v = bits_at (rdata r) (unat (bitsRead r)) (unat n)"
    by (simp split: if_splits)
  then show ?thesis
    by (simp add: bit_bits_at)
qed

section \<open>The write engine meets its specification\<close>

lemma write_loop_done: "\<not> 0 < sint b \<Longrightarrow> write_loop d v b = d"
  by (subst write_loop.simps) simp

lemma write_loop_step:
  "0 < sint b \<Longrightarrow> write_loop d v b = write_loop (d @ [ucast v]) (drop_bit 8 v) (b - 8)"
  by (subst write_loop.simps) simp

lemma le_bytes_Suc: "le_bytes v (Suc k) = ucast v # le_bytes (drop_bit 8 v) k"
  by (simp add: le_bytes_def map_upt_Suc add.commute del: upt_Suc)

lemma ceil8_step:
  fixes m :: nat
  assumes "0 < m"
  shows "(m + 7) div 8 = Suc ((m - 8 + 7) div 8)"
proof (cases "m < 8")
  case True
  with assms have "(m + 7) div 8 = 1" and "m - 8 = 0"
    by simp_all
  then show ?thesis
    by simp
next
  case False
  then obtain x where "m = 8 + x"
    using le_Suc_ex [of 8 m] by auto
  then show ?thesis
    by simp
qed

lemma write_loop_spec:
  "write_loop d v b = d @ le_bytes v ((nat (sint b) + 7) div 8)"
proof (induction d v b rule: write_loop.induct)
  case (1 d v b)
  show ?case
  proof (cases "0 < sint b")
    case False
    then show ?thesis
      by (simp add: write_loop_done le_bytes_def)
  next
    case True
    define m where "m = nat (sint b)"
    have "0 < m" and m8: "nat (sint (b - 8)) = m - 8"
      using True unfolding m_def sint_sub8 [OF True] by linarith+
    then have cnt: "(m + 7) div 8 = Suc ((m - 8 + 7) div 8)"
      by (simp only: ceil8_step)
    have "write_loop d v b = write_loop (d @ [ucast v]) (drop_bit 8 v) (b - 8)"
      using True by (rule write_loop_step)
    also have "\<dots> = (d @ [ucast v]) @ le_bytes (drop_bit 8 v) ((m - 8 + 7) div 8)"
      using "1.IH" [OF True] by (simp only: m8)
    also have "\<dots> = d @ le_bytes v ((m + 7) div 8)"
      by (simp only: cnt le_bytes_Suc) simp
    finally show ?thesis
      by (simp only: m_def)
  qed
qed

lemma length_le_bytes: "length (le_bytes v k) = k"
  by (simp add: le_bytes_def)

lemma bitAt_append_le_bytes:
  "bitAt (d @ le_bytes v k) p =
     (if p < 8 * length d then bitAt d p
      else p - 8 * length d < 8 * k \<and> bit v (p - 8 * length d))"
proof (cases "p < 8 * length d")
  case True
  then have "p div 8 < length d"
    by auto
  with True show ?thesis
    by (simp add: bitAt_def nth_append)
next
  case False
  then obtain x where p: "p = 8 * length d + x"
    using le_Suc_ex [of "8 * length d" p] by auto
  have pd: "p div 8 = length d + x div 8" and pm: "p mod 8 = x mod 8"
    by (simp_all add: p)
  have "bitAt (d @ le_bytes v k) p =
      (x div 8 < k \<and> bit (le_bytes v k ! (x div 8)) (x mod 8))"
    by (simp add: bitAt_def pd pm nth_append length_le_bytes)
  also have "\<dots> = (x div 8 < k \<and> bit v (8 * (x div 8) + x mod 8))"
    using bit_imp_le_length [of v "8 * (x div 8) + x mod 8"]
    by (auto simp add: le_bytes_def bit_simps)
  also have "8 * (x div 8) + x mod 8 = x"
    by simp
  also have "(x div 8 < k) = (x < 8 * k)"
    by auto
  finally show ?thesis
    using False by (simp add: p)
qed

lemma bitAt_update:
  "bitAt (d[i := x]) p = (if p div 8 = i then i < length d \<and> bit x (p mod 8) else bitAt d p)"
  by (auto simp add: bitAt_def)

lemma bit_masked:
  "bit (v AND maskT n :: 'a::len word) j \<longleftrightarrow> j < unat n \<and> bit v j"
  by (auto simp add: maskT_eq_mask bit_simps dest: bit_imp_le_length)

lemma unat_cursor_add:
  fixes c :: uint and n :: byte
  assumes "unat c + unat n < 2 ^ 64"
  shows "unat (c + ucast n) = unat c + unat n"
proof -
  have "unat n < 2 ^ 8"
    using unsigned_less [of n] by simp
  then have "unat n < 2 ^ 64"
    by simp
  then have u: "unat (ucast n :: uint) = unat n"
    by (simp add: unsigned_ucast_eq take_bit_nat_eq_self)
  then have "unat c + unat (ucast n :: uint) < 2 ^ LENGTH(64)"
    using assms by simp
  then show ?thesis
    using unat_add_lem [THEN iffD1, of c "ucast n"] u by simp
qed

lemma writeT_aligned:
  fixes v :: "'a::len word"
  assumes inv: "Writer_inv w" and n0: "n \<noteq> 0" and n127: "unat n \<le> 127"
    and al: "\<not> 0 < bitsWritten w mod 8"
  shows "writeT w v n = Some \<lparr>wdata = wdata w @ le_bytes (v AND maskT n) ((unat n + 7) div 8),
            bitsWritten = bitsWritten w + ucast n\<rparr>"
proof -
  have "nat (sint n) = unat n"
    using sint_byte_small [OF n127] by simp
  then have "write_loop (wdata w) (v AND maskT n) n
      = wdata w @ le_bytes (v AND maskT n) ((unat n + 7) div 8)"
    by (simp only: write_loop_spec)
  with n0 al show ?thesis
    by (simp add: writeT_def Let_def)
qed

lemma writeT_unaligned:
  fixes v :: "'a::len word"
  assumes inv: "Writer_inv w" and n0: "n \<noteq> 0" and n127: "unat n \<le> 127"
    and un: "0 < bitsWritten w mod 8"
  defines "q \<equiv> unat (bitsWritten w) div 8" and "ofs \<equiv> unat (bitsWritten w) mod 8"
  shows "writeT w v n = Some
      \<lparr>wdata = (wdata w)[q := (wdata w ! q) OR ucast (push_bit ofs (v AND maskT n))]
                @ le_bytes (drop_bit (8 - ofs) (v AND maskT n)) ((unat n - (8 - ofs) + 7) div 8),
       bitsWritten = bitsWritten w + ucast n\<rparr>"
    and "q < length (wdata w)" and "0 < ofs"
proof -
  note ob = ofs_bits [OF un]
  show ofs_pos: "0 < ofs"
    using ob(3) by (simp add: ofs_def)
  have ofs_lt: "ofs < 8"
    by (simp add: ofs_def)
  have uq: "unat (bitsWritten w div 8) = q"
    by (simp add: unat_div_distrib q_def)
  have uo: "unat (bitsWritten w mod 8) = ofs"
    by (simp add: unat_mod_distrib ofs_def)
  have ubits: "unat (8 - ucast (bitsWritten w mod 8) :: int8) = 8 - ofs"
    using ob(1) by (simp add: ofs_def)
  have sbits: "sint (8 - ucast (bitsWritten w mod 8) :: int8) = 8 - int ofs"
    using ob(2) by (simp add: ofs_def)
  have sn: "sint n = int (unat n)"
    using n127 by (rule sint_byte_small)
  have "length (wdata w) = (8 * q + ofs + 7) div 8"
    using inv by (simp add: Writer_inv_def q_def ofs_def)
  also have "\<dots> = q + 1"
    using ofs_pos ofs_lt by simp
  finally have len: "length (wdata w) = q + 1" .
  then show "q < length (wdata w)"
    by simp
  have "- 128 \<le> sint n - sint (8 - ucast (bitsWritten w mod 8) :: int8)"
    and "sint n - sint (8 - ucast (bitsWritten w mod 8) :: int8) < 128"
    unfolding sn sbits using n127 ofs_lt ofs_pos by linarith+
  from sint_diff_int8 [OF this]
  have "sint (n - (8 - ucast (bitsWritten w mod 8))) = int (unat n) - (8 - int ofs)"
    unfolding sn sbits .
  then have "nat (sint (n - (8 - ucast (bitsWritten w mod 8)))) = unat n - (8 - ofs)"
    using ofs_lt by linarith
  then have loop: "write_loop d x (n - (8 - ucast (bitsWritten w mod 8)))
      = d @ le_bytes x ((unat n - (8 - ofs) + 7) div 8)" for d and x :: "'a word"
    by (simp only: write_loop_spec)
  show "writeT w v n = Some
      \<lparr>wdata = (wdata w)[q := (wdata w ! q) OR ucast (push_bit ofs (v AND maskT n))]
                @ le_bytes (drop_bit (8 - ofs) (v AND maskT n)) ((unat n - (8 - ofs) + 7) div 8),
       bitsWritten = bitsWritten w + ucast n\<rparr>"
    using n0 un len
    by (simp add: writeT_def Let_def uq uo ubits loop)
qed

lemma writeT_spec:
  fixes v :: "'a::len word"
  assumes inv: "Writer_inv w" and n0: "n \<noteq> 0" and n127: "unat n \<le> 127"
    and fit: "unat (bitsWritten w) + unat n < 2 ^ 64"
    and wide: "8 \<le> LENGTH('a)"
  shows "\<exists>w'. writeT w v n = Some w'
      \<and> unat (bitsWritten w') = unat (bitsWritten w) + unat n
      \<and> length (wdata w') = (unat (bitsWritten w) + unat n + 7) div 8
      \<and> (\<forall>p. bitAt (wdata w') p =
            (if p < unat (bitsWritten w) then bitAt (wdata w) p
             else p - unat (bitsWritten w) < unat n \<and> bit v (p - unat (bitsWritten w))))"
proof -
  define c where "c = unat (bitsWritten w)"
  define q where "q = c div 8"
  define ofs where "ofs = c mod 8"
  define D where "D = wdata w"
  define val where "val = v AND maskT n"
  have c_eq: "c = 8 * q + ofs" and ofs_lt: "ofs < 8"
    by (simp_all add: q_def ofs_def)
  have n_pos: "0 < unat n"
    using n0 by (simp add: unat_gt_0)
  have cur: "unat (bitsWritten w + ucast n) = c + unat n"
    using fit by (simp add: unat_cursor_add c_def)
  have len: "length D = (c + 7) div 8" and pad: "\<And>p. c \<le> p \<Longrightarrow> \<not> bitAt D p"
    using inv by (simp_all add: Writer_inv_def c_def D_def)
  have bval: "bit val j \<longleftrightarrow> j < unat n \<and> bit v j" for j
    by (simp add: val_def bit_masked)
  show ?thesis
  proof (cases "0 < bitsWritten w mod 8")
    case False
    then have ofs0: "ofs = 0"
      by (simp add: word_less_nat_alt unat_mod_distrib ofs_def c_def)
    define k where "k = (unat n + 7) div 8"
    define w' where "w' = \<lparr>wdata = D @ le_bytes val k, bitsWritten = bitsWritten w + ucast n\<rparr>"
    have wr: "writeT w v n = Some w'"
      using writeT_aligned [OF inv n0 n127 False, of v]
      by (simp add: w'_def D_def val_def k_def)
    have lenD: "length D = q" and cq: "c = 8 * q"
      using len c_eq ofs0 by simp_all
    have nk: "unat n \<le> 8 * k"
      unfolding k_def by simp
    have l': "length (wdata w') = (c + unat n + 7) div 8"
      by (simp add: w'_def length_le_bytes lenD cq k_def)
    have b': "bitAt (wdata w') p =
        (if p < c then bitAt D p else p - c < unat n \<and> bit v (p - c))" for p
      using nk by (auto simp add: w'_def bitAt_append_le_bytes lenD cq [symmetric] bval)
    show ?thesis
      using wr cur l' b' by (auto simp add: w'_def c_def D_def)
  next
    case True
    define k where "k = (unat n - (8 - ofs) + 7) div 8"
    define x where "x = (D ! q) OR ucast (push_bit ofs val)"
    define val' where "val' = drop_bit (8 - ofs) val"
    define w' where "w' = \<lparr>wdata = D[q := x] @ le_bytes val' k,
      bitsWritten = bitsWritten w + ucast n\<rparr>"
    note un = writeT_unaligned [OF inv n0 n127 True]
    have wr: "writeT w v n = Some w'"
      using un(1) [of v] by (simp add: w'_def D_def val_def k_def x_def val'_def q_def ofs_def c_def)
    have qlt: "q < length D" and ofs_pos: "0 < ofs"
      using un(2,3) by (simp_all add: D_def q_def ofs_def c_def)
    have lenD: "length D = q + 1"
      using len c_eq ofs_pos ofs_lt by simp
    have nk: "unat n - (8 - ofs) \<le> 8 * k"
      unfolding k_def by simp
    have l': "length (wdata w') = (c + unat n + 7) div 8"
    proof (cases "unat n \<le> 8 - ofs")
      case True
      then have "k = 0"
        by (simp add: k_def)
      moreover have "(c + unat n + 7) div 8 = q + 1"
        using True n_pos ofs_pos ofs_lt by (simp add: c_eq)
      ultimately show ?thesis
        by (simp add: w'_def length_le_bytes lenD)
    next
      case False
      then obtain m where m: "unat n = 8 - ofs + m"
        using le_Suc_ex [of "8 - ofs" "unat n"] by auto
      have "c + unat n + 7 = 8 * (q + 1) + (m + 7)"
        using ofs_lt by (simp add: c_eq m)
      then have "(c + unat n + 7) div 8 = q + 1 + (m + 7) div 8"
        by (simp only: div_mult_self2 [of 8 "m + 7" "q + 1"]) simp
      moreover have "k = (m + 7) div 8"
        by (simp add: k_def m)
      ultimately show ?thesis
        by (simp add: w'_def length_le_bytes lenD)
    qed
    have bx: "bit x j \<longleftrightarrow> bit (D ! q) j \<or> (j < 8 \<and> ofs \<le> j \<and> bit val (j - ofs))" for j
      using wide by (auto simp add: x_def bit_simps)
    have b': "bitAt (wdata w') p =
        (if p < c then bitAt D p else p - c < unat n \<and> bit v (p - c))" for p
    proof -
      consider (lo) "p < 8 * q" | (mid) j where "p = 8 * q + j" "j < 8"
        | (hi) y where "p = 8 * q + 8 + y"
      proof (cases "p < 8 * q")
        case True
        then show ?thesis
          by (rule lo)
      next
        case False
        then obtain j where j: "p = 8 * q + j"
          using le_Suc_ex [of "8 * q" p] by auto
        show ?thesis
        proof (cases "j < 8")
          case True
          with j show ?thesis
            by (rule mid)
        next
          case False
          then obtain y where "j = 8 + y"
            using le_Suc_ex [of 8 j] by auto
          with j have "p = 8 * q + 8 + y"
            by simp
          then show ?thesis
            by (rule hi)
        qed
      qed
      then show ?thesis
      proof cases
        case lo
        then have "p div 8 \<noteq> q" and "p < c"
          using c_eq by auto
        with lo show ?thesis
          by (simp add: w'_def bitAt_append_le_bytes lenD bitAt_update)
      next
        case mid
        have at: "bitAt (wdata w') p = bit x j"
          using mid qlt by (simp add: w'_def bitAt_append_le_bytes lenD bitAt_update)
        have old: "bitAt D p = bit (D ! q) j"
          using mid qlt by (simp add: bitAt_byte)
        show ?thesis
        proof (cases "j < ofs")
          case True
          then have "p < c"
            using mid by (simp add: c_eq)
          then show ?thesis
            unfolding at old bx using True by simp
        next
          case False
          then have ge: "\<not> p < c" and pc: "p - c = j - ofs"
            using mid by (simp_all add: c_eq)
          then have "\<not> bit (D ! q) j"
            using pad [of p] old by simp
          then show ?thesis
            unfolding at bx pc using False mid(2) ge by (simp add: bval)
        qed
      next
        case hi
        have pc: "p - c = 8 - ofs + y" and ge: "\<not> p < c"
          using hi ofs_lt by (simp_all add: c_eq)
        have "bitAt (wdata w') p = (y < 8 * k \<and> bit val' y)"
          using hi by (simp add: w'_def bitAt_append_le_bytes lenD)
        also have "bit val' y = (8 - ofs + y < unat n \<and> bit v (8 - ofs + y))"
          by (simp add: val'_def bit_simps bval)
        also have "(y < 8 * k \<and> 8 - ofs + y < unat n \<and> bit v (8 - ofs + y))
            = (8 - ofs + y < unat n \<and> bit v (8 - ofs + y))"
          using nk by auto
        finally show ?thesis
          using ge by (simp add: pc)
      qed
    qed
    show ?thesis
      using wr cur l' b' by (auto simp add: w'_def c_def D_def)
  qed
qed

lemma writeT_step:
  fixes v :: "'a::len word"
  assumes inv: "Writer_inv w" and n127: "unat n \<le> 127"
    and fit: "unat (bitsWritten w) + unat n < 2 ^ 64"
    and wide: "8 \<le> LENGTH('a)"
  shows "\<exists>w'. writeT w v n = Some w' \<and> Writer_inv w'
      \<and> unat (bitsWritten w') = unat (bitsWritten w) + unat n
      \<and> (\<forall>p. bitAt (wdata w') p =
            (if p < unat (bitsWritten w) then bitAt (wdata w) p
             else p - unat (bitsWritten w) < unat n \<and> bit v (p - unat (bitsWritten w))))"
proof (cases "n = 0")
  case True
  then have "writeT w v n = Some w"
    by (simp add: writeT_def)
  with True inv show ?thesis
    by (auto simp add: Writer_inv_def)
next
  case False
  from writeT_spec [OF inv False n127 fit wide, of v] obtain w' where
    wr: "writeT w v n = Some w'"
    and cur: "unat (bitsWritten w') = unat (bitsWritten w) + unat n"
    and len: "length (wdata w') = (unat (bitsWritten w) + unat n + 7) div 8"
    and bits: "\<And>p. bitAt (wdata w') p =
            (if p < unat (bitsWritten w) then bitAt (wdata w) p
             else p - unat (bitsWritten w) < unat n \<and> bit v (p - unat (bitsWritten w)))"
    by blast
  have "Writer_inv w'"
    unfolding Writer_inv_def cur using len by (auto simp add: bits)
  with wr cur bits show ?thesis
    by blast
qed

lemma Writer_call_spec:
  assumes inv: "Writer_inv w" and n127: "wcall_bits c \<le> 127"
    and fit: "unat (bitsWritten w) + wcall_bits c < 2 ^ 64"
  shows "\<exists>w'. Writer_call w c = Some w' \<and> Writer_inv w'
      \<and> unat (bitsWritten w') = unat (bitsWritten w) + wcall_bits c
      \<and> (\<forall>p. bitAt (wdata w') p =
            (if p < unat (bitsWritten w) then bitAt (wdata w) p
             else p - unat (bitsWritten w) < wcall_bits c
               \<and> wcall_bit c (p - unat (bitsWritten w))))"
proof (cases c)
  case (WriteBool b)
  have one: "unat (1 :: byte) \<le> 127" "unat (bitsWritten w) + unat (1 :: byte) < 2 ^ 64"
    using fit by (simp_all add: WriteBool)
  have wide: "8 \<le> LENGTH(8)"
    by simp
  have b1: "(j < unat (1 :: byte) \<and> bit (1 :: byte) j) = (j = 0)"
    and b0: "(j < unat (1 :: byte) \<and> bit (0 :: byte) j) = False" for j
    by (auto simp add: bit_1_iff)
  show ?thesis
  proof (cases b)
    case True
    from writeT_step [OF inv one wide, of 1] show ?thesis
      unfolding b1 by (auto simp add: WriteBool True Writer_WriteBool_def)
  next
    case False
    from writeT_step [OF inv one wide, of 0] show ?thesis
      unfolding b0 by (auto simp add: WriteBool False Writer_WriteBool_def)
  qed
next
  case (Write8 v n)
  have wide: "8 \<le> LENGTH(8)"
    by simp
  have "unat n \<le> 127" and "unat (bitsWritten w) + unat n < 2 ^ 64"
    using n127 fit by (simp_all add: Write8)
  from writeT_step [OF inv this wide, of v] show ?thesis
    by (auto simp add: Write8 Writer_Write8_def)
next
  case (Write16 v n)
  have wide: "8 \<le> LENGTH(16)"
    by simp
  have "unat n \<le> 127" and "unat (bitsWritten w) + unat n < 2 ^ 64"
    using n127 fit by (simp_all add: Write16)
  from writeT_step [OF inv this wide, of v] show ?thesis
    by (auto simp add: Write16 Writer_Write16_def)
next
  case (Write32 v n)
  have wide: "8 \<le> LENGTH(32)"
    by simp
  have "unat n \<le> 127" and "unat (bitsWritten w) + unat n < 2 ^ 64"
    using n127 fit by (simp_all add: Write32)
  from writeT_step [OF inv this wide, of v] show ?thesis
    by (auto simp add: Write32 Writer_Write32_def)
next
  case (Write64 v n)
  have wide: "8 \<le> LENGTH(64)"
    by simp
  have "unat n \<le> 127" and "unat (bitsWritten w) + unat n < 2 ^ 64"
    using n127 fit by (simp_all add: Write64)
  from writeT_step [OF inv this wide, of v] show ?thesis
    by (auto simp add: Write64 Writer_Write64_def)
qed

lemma Writer_inv_New: "Writer_inv NewWriter"
  by (simp add: Writer_inv_def NewWriter_def bitAt_def)

lemma Writer_calls_spec:
  assumes "Writer_inv w" and "\<forall>c\<in>set cs. wcall_bits c \<le> 127"
    and "unat (bitsWritten w) + sum_list (map wcall_bits cs) < 2 ^ 64"
  shows "\<exists>w'. Writer_calls w cs = Some w' \<and> Writer_inv w'
      \<and> unat (bitsWritten w') = unat (bitsWritten w) + sum_list (map wcall_bits cs)
      \<and> (\<forall>p<unat (bitsWritten w). bitAt (wdata w') p = bitAt (wdata w) p)"
  using assms
proof (induction cs arbitrary: w)
  case Nil
  then show ?case
    by simp
next
  case (Cons c cs)
  have "wcall_bits c \<le> 127" and "unat (bitsWritten w) + wcall_bits c < 2 ^ 64"
    using Cons.prems(2,3) by simp_all
  from Writer_call_spec [OF Cons.prems(1) this] obtain w1 where
    c1: "Writer_call w c = Some w1" and inv1: "Writer_inv w1"
    and cur1: "unat (bitsWritten w1) = unat (bitsWritten w) + wcall_bits c"
    and bits1: "\<And>p. p < unat (bitsWritten w) \<Longrightarrow> bitAt (wdata w1) p = bitAt (wdata w) p"
    by auto
  have "\<forall>c\<in>set cs. wcall_bits c \<le> 127"
    and "unat (bitsWritten w1) + sum_list (map wcall_bits cs) < 2 ^ 64"
    using Cons.prems(2,3) cur1 by simp_all
  from Cons.IH [OF inv1 this] obtain w' where
    cs': "Writer_calls w1 cs = Some w'" and inv': "Writer_inv w'"
    and cur': "unat (bitsWritten w') = unat (bitsWritten w1) + sum_list (map wcall_bits cs)"
    and bits': "\<And>p. p < unat (bitsWritten w1) \<Longrightarrow> bitAt (wdata w') p = bitAt (wdata w1) p"
    by auto
  have "Writer_calls w (c # cs) = Some w'"
    using c1 cs' by simp
  moreover have "unat (bitsWritten w') = unat (bitsWritten w) + sum_list (map wcall_bits (c # cs))"
    using cur1 cur' by simp
  moreover have "bitAt (wdata w') p = bitAt (wdata w) p" if "p < unat (bitsWritten w)" for p
    using that bits1 [of p] bits' [of p] cur1 by simp
  ultimately show ?case
    using inv' by blast
qed

section \<open>Writing, then reading\<close>

lemma writeT_cursor: "writeT w v n = Some w1 \<Longrightarrow> bitsWritten w1 = bitsWritten w + ucast n"
  by (auto simp add: writeT_def Let_def split: if_splits)

lemma round_trip_generic:
  fixes v :: "'a::len word"
  assumes inv: "Writer_inv w" and n0: "n \<noteq> 0" and n127: "unat n \<le> 127"
    and fit: "unat (bitsWritten w) + unat n < 2 ^ 64"
    and wide: "8 \<le> LENGTH('a)"
    and masked: "v AND maskT n = v"
    and wr: "writeT w v n = Some w1"
    and rd: "bitsRead r = bitsWritten w"
    and len: "unat (bitsWritten w) + unat n \<le> 8 * length (rdata r)"
    and same: "\<And>p. unat (bitsWritten w) \<le> p \<Longrightarrow> p < unat (bitsWritten w) + unat n
        \<Longrightarrow> bitAt (rdata r) p = bitAt (wdata w1) p"
  shows "read r n = (Inr v, r\<lparr>bitsRead := bitsWritten w1\<rparr>)"
proof -
  from writeT_spec [OF inv n0 n127 fit wide, of v] wr
  have bits: "bitAt (wdata w1) p =
      (if p < unat (bitsWritten w) then bitAt (wdata w) p
       else p - unat (bitsWritten w) < unat n \<and> bit v (p - unat (bitsWritten w)))" for p
    by auto
  have bv: "bit v j \<Longrightarrow> j < unat n" for j
    using bit_masked [of v n j] masked by simp
  have "(bits_at (rdata r) (unat (bitsWritten w)) (unat n) :: 'a word) = v"
  proof (rule bit_word_eqI)
    fix j
    assume "j < LENGTH('a)"
    show "bit (bits_at (rdata r) (unat (bitsWritten w)) (unat n) :: 'a word) j = bit v j"
    proof (cases "j < unat n")
      case True
      then have "bitAt (rdata r) (unat (bitsWritten w) + j) = bit v j"
        using same [of "unat (bitsWritten w) + j"] bits [of "unat (bitsWritten w) + j"] by simp
      with True \<open>j < LENGTH('a)\<close> show ?thesis
        by (simp add: bit_bits_at)
    next
      case False
      with bv [of j] show ?thesis
        by (auto simp add: bit_bits_at)
    qed
  qed
  with read_spec [OF n0 n127, of r, where 'a = 'a] len show ?thesis
    by (simp add: rd writeT_cursor [OF wr])
qed

lemma round_trip_call:
  assumes inv: "Writer_inv w"
    and ok: "1 \<le> wcall_bits c" "wcall_bits c \<le> wcall_width c" "wcall_masked c"
    and fit: "unat (bitsWritten w) + wcall_bits c < 2 ^ 64"
    and wr: "Writer_call w c = Some w1"
    and rd: "bitsRead r = bitsWritten w"
    and len: "unat (bitsWritten w) + wcall_bits c \<le> 8 * length (rdata r)"
    and same: "\<And>p. unat (bitsWritten w) \<le> p \<Longrightarrow> p < unat (bitsWritten w) + wcall_bits c
        \<Longrightarrow> bitAt (rdata r) p = bitAt (wdata w1) p"
  shows "Reader_call r (read_of c) = (Inr (value_of c), r\<lparr>bitsRead := bitsWritten w1\<rparr>)"
proof (cases c)
  case (WriteBool b)
  define v :: byte where "v = (if b then 1 else 0)"
  have wr': "writeT w v 1 = Some w1"
    using wr by (cases b) (simp_all add: WriteBool Writer_WriteBool_def v_def)
  have m: "v AND maskT 1 = v"
    by (simp add: v_def maskT_eq_mask)
  have "(1 :: byte) \<noteq> 0" "unat (1 :: byte) \<le> 127" "8 \<le> LENGTH(8)"
    by simp_all
  from round_trip_generic [OF inv this(1,2) _ this(3) m wr' rd] fit len same
  have "read r 1 = (Inr v, r\<lparr>bitsRead := bitsWritten w1\<rparr>)"
    by (simp add: WriteBool)
  then show ?thesis
    by (simp add: WriteBool Reader_ReadBool_def v_def)
next
  case (Write8 v n)
  have n: "n \<noteq> 0" "unat n \<le> 127" "\<not> 8 < n" and wide: "8 \<le> LENGTH(8)"
    using ok by (auto simp add: Write8 word_less_nat_alt)
  have m: "v AND maskT n = v" and wr': "writeT w v n = Some w1"
    using ok(3) wr by (simp_all add: Write8 Writer_Write8_def)
  from round_trip_generic [OF inv n(1,2) _ wide m wr' rd] fit len same
  have "read r n = (Inr v, r\<lparr>bitsRead := bitsWritten w1\<rparr>)"
    by (simp add: Write8)
  then show ?thesis
    using n(3) by (simp add: Write8 Reader_Read8_def)
next
  case (Write16 v n)
  have n: "n \<noteq> 0" "unat n \<le> 127" "\<not> 16 < n" and wide: "8 \<le> LENGTH(16)"
    using ok by (auto simp add: Write16 word_less_nat_alt)
  have m: "v AND maskT n = v" and wr': "writeT w v n = Some w1"
    using ok(3) wr by (simp_all add: Write16 Writer_Write16_def)
  from round_trip_generic [OF inv n(1,2) _ wide m wr' rd] fit len same
  have "read r n = (Inr v, r\<lparr>bitsRead := bitsWritten w1\<rparr>)"
    by (simp add: Write16)
  then show ?thesis
    using n(3) by (simp add: Write16 Reader_Read16_def)
next
  case (Write32 v n)
  have n: "n \<noteq> 0" "unat n \<le> 127" "\<not> 32 < n" and wide: "8 \<le> LENGTH(32)"
    using ok by (auto simp add: Write32 word_less_nat_alt)
  have m: "v AND maskT n = v" and wr': "writeT w v n = Some w1"
    using ok(3) wr by (simp_all add: Write32 Writer_Write32_def)
  from round_trip_generic [OF inv n(1,2) _ wide m wr' rd] fit len same
  have "read r n = (Inr v, r\<lparr>bitsRead := bitsWritten w1\<rparr>)"
    by (simp add: Write32)
  then show ?thesis
    using n(3) by (simp add: Write32 Reader_Read32_def)
next
  case (Write64 v n)
  have n: "n \<noteq> 0" "unat n \<le> 127" "\<not> 64 < n" and wide: "8 \<le> LENGTH(64)"
    using ok by (auto simp add: Write64 word_less_nat_alt)
  have m: "v AND maskT n = v" and wr': "writeT w v n = Some w1"
    using ok(3) wr by (simp_all add: Write64 Writer_Write64_def)
  from round_trip_generic [OF inv n(1,2) _ wide m wr' rd] fit len same
  have "read r n = (Inr v, r\<lparr>bitsRead := bitsWritten w1\<rparr>)"
    by (simp add: Write64)
  then show ?thesis
    using n(3) by (simp add: Write64 Reader_Read64_def)
qed

lemma wcall_width_le: "wcall_width c \<le> 64"
  by (cases c) simp_all

lemma round_trip_calls:
  assumes "Writer_inv w"
    and "\<forall>c\<in>set cs. 1 \<le> wcall_bits c \<and> wcall_bits c \<le> wcall_width c \<and> wcall_masked c"
    and "unat (bitsWritten w) + sum_list (map wcall_bits cs) < 2 ^ 64"
    and "Writer_calls w cs = Some wz"
    and "bitsRead r = bitsWritten w"
    and "rdata r = wdata wz"
  shows "Reader_calls r (map read_of cs)
      = (map (\<lambda>c. Inr (value_of c)) cs, r\<lparr>bitsRead := bitsWritten wz\<rparr>)"
  using assms
proof (induction cs arbitrary: w r)
  case Nil
  then show ?case
    by simp
next
  case (Cons c cs)
  have ok: "1 \<le> wcall_bits c" "wcall_bits c \<le> wcall_width c" "wcall_masked c"
    and oks: "\<forall>c\<in>set cs. 1 \<le> wcall_bits c \<and> wcall_bits c \<le> wcall_width c \<and> wcall_masked c"
    using Cons.prems(2) by simp_all
  have b127: "wcall_bits c \<le> 127"
    using ok(2) wcall_width_le [of c] by simp
  have fit: "unat (bitsWritten w) + wcall_bits c < 2 ^ 64"
    using Cons.prems(3) by simp
  from Writer_call_spec [OF Cons.prems(1) b127 fit] obtain w1 where
    c1: "Writer_call w c = Some w1" and inv1: "Writer_inv w1"
    and cur1: "unat (bitsWritten w1) = unat (bitsWritten w) + wcall_bits c"
    by auto
  have rest: "Writer_calls w1 cs = Some wz"
    using Cons.prems(4) c1 by simp
  have s127: "\<forall>c\<in>set cs. wcall_bits c \<le> 127"
  proof
    fix c'
    assume "c' \<in> set cs"
    with oks have "wcall_bits c' \<le> wcall_width c'"
      by simp
    with wcall_width_le [of c'] show "wcall_bits c' \<le> 127"
      by simp
  qed
  have fit1: "unat (bitsWritten w1) + sum_list (map wcall_bits cs) < 2 ^ 64"
    using Cons.prems(3) cur1 by simp
  from Writer_calls_spec [OF inv1 s127 fit1] rest
  have invz: "Writer_inv wz"
    and curz: "unat (bitsWritten wz) = unat (bitsWritten w1) + sum_list (map wcall_bits cs)"
    and keep: "\<And>p. p < unat (bitsWritten w1) \<Longrightarrow> bitAt (wdata wz) p = bitAt (wdata w1) p"
    by auto
  have "unat (bitsWritten wz) \<le> 8 * length (wdata wz)"
    using invz by (simp add: Writer_inv_def)
  then have len: "unat (bitsWritten w) + wcall_bits c \<le> 8 * length (rdata r)"
    using curz cur1 Cons.prems(6) by simp
  have same: "bitAt (rdata r) p = bitAt (wdata w1) p"
    if "unat (bitsWritten w) \<le> p" "p < unat (bitsWritten w) + wcall_bits c" for p
    using that keep [of p] cur1 Cons.prems(6) by simp
  define r1 where "r1 = r\<lparr>bitsRead := bitsWritten w1\<rparr>"
  have call: "Reader_call r (read_of c) = (Inr (value_of c), r1)"
    unfolding r1_def
    by (rule round_trip_call [OF Cons.prems(1) ok fit c1 Cons.prems(5) len same])
  have "bitsRead r1 = bitsWritten w1" and "rdata r1 = wdata wz"
    using Cons.prems(6) by (simp_all add: r1_def)
  from Cons.IH [OF inv1 oks fit1 rest this]
  have "Reader_calls r1 (map read_of cs)
      = (map (\<lambda>c. Inr (value_of c)) cs, r1\<lparr>bitsRead := bitsWritten wz\<rparr>)" .
  with call show ?case
    by (simp add: r1_def)
qed

lemma size_law_up_to_127_bits:
  assumes "\<forall>c\<in>set cs. wcall_bits c \<le> 127"
    and "sum_list (map wcall_bits cs) < 2 ^ 64"
  shows "\<exists>w. Writer_calls NewWriter cs = Some w
      \<and> unat (bitsWritten w) = sum_list (map wcall_bits cs)
      \<and> length (Writer_BitData w) = (sum_list (map wcall_bits cs) + 7) div 8"
proof -
  have fit: "unat (bitsWritten NewWriter) + sum_list (map wcall_bits cs) < 2 ^ 64"
    using assms(2) by (simp add: NewWriter_def)
  from Writer_calls_spec [OF Writer_inv_New assms(1) fit] obtain w where
    "Writer_calls NewWriter cs = Some w" and "Writer_inv w"
    and "unat (bitsWritten w) = unat (bitsWritten NewWriter) + sum_list (map wcall_bits cs)"
    by blast
  then show ?thesis
    by (auto simp add: Writer_inv_def Writer_BitData_def NewWriter_def)
qed

section \<open>The claims\<close>

subsection \<open>The mask helper\<close>

text \<open>
  Claim C5 (mask contract). For every container width \<open>W\<close> (the type \<open>'a word\<close>, so 8, 16,
  32 and 64 among others) and every bit count \<open>n \<le> W\<close>, \<^verbatim>\<open>mask[T](n)\<close> is the value
  \<open>2 ^ n - 1\<close>: its low \<open>n\<close> bits are 1 and all other bits are 0. For \<open>n = W\<close> it is the
  maximal value of the type (all bits set), not zero: Go's shift by the full width gives
  0 and the subtraction wraps.
\<close>

theorem mask_contract:
  fixes n :: byte
  assumes "unat n \<le> LENGTH('a::len)"
  shows "unat (maskT n :: 'a word) = 2 ^ unat n - 1
    \<and> (\<forall>j. bit (maskT n :: 'a word) j \<longleftrightarrow> j < unat n)
    \<and> (unat n = LENGTH('a) \<longrightarrow> (maskT n :: 'a word) = - 1)"
  using assms
  by (auto simp add: maskT_eq_mask bit_mask_iff unat_mask_le)

theorem mask_contract_witness:
  "unat (8 :: byte) \<le> LENGTH(8) \<and> unat (maskT 8 :: 8 word) = 2 ^ unat (8 :: byte) - 1
    \<and> (\<forall>j. bit (maskT 8 :: 8 word) j \<longleftrightarrow> j < unat (8 :: byte))
    \<and> (maskT 8 :: 8 word) = - 1"
proof -
  have h: "unat (8 :: byte) \<le> LENGTH(8)"
    by simp
  have e: "unat (8 :: byte) = LENGTH(8)"
    by simp
  from mask_contract [where 'a = 8, OF h] h e show ?thesis
    by blast
qed

subsection \<open>Reader\<close>

text \<open>
  Claim C3 (end-of-data guard, with atomicity). Take any reader state (buffer of \<open>L\<close>
  bytes, cursor \<open>c\<close>) and any read call whose bit count is between 1 and the width of its
  container (\<^verbatim>\<open>ReadBool\<close> counts as one bit of one). The call fails with
  \<^verbatim>\<open>io.ErrUnexpectedEOF\<close> exactly when \<open>c + bitCount > 8 * L\<close>, and then the reader is
  returned unchanged; when \<open>c + bitCount \<le> 8 * L\<close> it succeeds and the cursor becomes
  \<open>c + bitCount\<close> (in \<^verbatim>\<open>uint\<close> arithmetic), nothing else changing.
\<close>

theorem end_of_data_guard:
  assumes "1 \<le> rcall_bits c" and "rcall_bits c \<le> rcall_width c"
  shows "(fst (Reader_call r c) = Inl ErrUnexpectedEOF
            \<longleftrightarrow> 8 * length (rdata r) < unat (bitsRead r) + rcall_bits c)
       \<and> (8 * length (rdata r) < unat (bitsRead r) + rcall_bits c
            \<longrightarrow> Reader_call r c = (Inl ErrUnexpectedEOF, r))
       \<and> (unat (bitsRead r) + rcall_bits c \<le> 8 * length (rdata r)
            \<longrightarrow> (\<exists>v. Reader_call r c =
                  (Inr v, r\<lparr>bitsRead := bitsRead r + word_of_nat (rcall_bits c)\<rparr>)))"
  using Reader_call_spec [OF assms, of r] by (auto split: if_splits)

theorem end_of_data_guard_witness:
  "1 \<le> rcall_bits (Read16 10) \<and> rcall_bits (Read16 10) \<le> rcall_width (Read16 10)
   \<and> 8 * length (rdata \<lparr>rdata = [255, 127], bitsRead = 10\<rparr>)
        < unat (bitsRead \<lparr>rdata = [255, 127], bitsRead = 10\<rparr>) + rcall_bits (Read16 10)
   \<and> Reader_call \<lparr>rdata = [255, 127], bitsRead = 10\<rparr> (Read16 10)
        = (Inl ErrUnexpectedEOF, \<lparr>rdata = [255, 127], bitsRead = 10\<rparr>)
   \<and> unat (bitsRead \<lparr>rdata = [255, 127], bitsRead = 5\<rparr>) + rcall_bits (Read16 10)
        \<le> 8 * length (rdata \<lparr>rdata = [255, 127], bitsRead = 5\<rparr>)
   \<and> (\<exists>v. Reader_call \<lparr>rdata = [255, 127], bitsRead = 5\<rparr> (Read16 10)
        = (Inr v, \<lparr>rdata = [255, 127], bitsRead = 5\<rparr>
             \<lparr>bitsRead := bitsRead \<lparr>rdata = [255, 127], bitsRead = 5\<rparr>
                + word_of_nat (rcall_bits (Read16 10))\<rparr>))"
proof -
  have h1: "1 \<le> rcall_bits (Read16 10)"
    and h2: "rcall_bits (Read16 10) \<le> rcall_width (Read16 10)"
    by simp_all
  have far: "8 * length (rdata \<lparr>rdata = [255, 127], bitsRead = 10\<rparr>)
      < unat (bitsRead \<lparr>rdata = [255, 127], bitsRead = 10\<rparr>) + rcall_bits (Read16 10)"
    by simp
  have near: "unat (bitsRead \<lparr>rdata = [255, 127], bitsRead = 5\<rparr>) + rcall_bits (Read16 10)
      \<le> 8 * length (rdata \<lparr>rdata = [255, 127], bitsRead = 5\<rparr>)"
    by simp
  from end_of_data_guard [OF h1 h2, of "\<lparr>rdata = [255, 127], bitsRead = 10\<rparr>"]
    end_of_data_guard [OF h1 h2, of "\<lparr>rdata = [255, 127], bitsRead = 5\<rparr>"]
    h1 h2 far near
  show ?thesis
    by blast
qed

text \<open>
  Claim C4 (width-overflow guard). In every reader state, whatever the buffer holds and
  wherever the cursor stands, \<^verbatim>\<open>Read8\<close>, \<^verbatim>\<open>Read16\<close>, \<^verbatim>\<open>Read32\<close> and \<^verbatim>\<open>Read64\<close> with a bit
  count above their container width fail with \<^verbatim>\<open>ErrBitCountTooBig\<close> and return the reader
  unchanged. The result does not depend on the buffer, which is not consulted.
\<close>

theorem width_overflow_guard:
  "(8 < n \<longrightarrow> Reader_Read8 r n = (Inl ErrBitCountTooBig, r))
   \<and> (16 < n \<longrightarrow> Reader_Read16 r n = (Inl ErrBitCountTooBig, r))
   \<and> (32 < n \<longrightarrow> Reader_Read32 r n = (Inl ErrBitCountTooBig, r))
   \<and> (64 < n \<longrightarrow> Reader_Read64 r n = (Inl ErrBitCountTooBig, r))"
  by (simp add: Reader_Read8_def Reader_Read16_def Reader_Read32_def Reader_Read64_def)

theorem width_overflow_guard_witness:
  "(8 :: byte) < 65 \<and> (16 :: byte) < 65 \<and> (32 :: byte) < 65 \<and> (64 :: byte) < 65
   \<and> Reader_Read8 (NewReader [255, 127]) 65 = (Inl ErrBitCountTooBig, NewReader [255, 127])
   \<and> Reader_Read16 (NewReader [255, 127]) 65 = (Inl ErrBitCountTooBig, NewReader [255, 127])
   \<and> Reader_Read32 (NewReader [255, 127]) 65 = (Inl ErrBitCountTooBig, NewReader [255, 127])
   \<and> Reader_Read64 (NewReader [255, 127]) 65 = (Inl ErrBitCountTooBig, NewReader [255, 127])"
proof -
  have h: "(8 :: byte) < 65" "(16 :: byte) < 65" "(32 :: byte) < 65" "(64 :: byte) < 65"
    by simp_all
  from width_overflow_guard [of 65 "NewReader [255, 127]"] h show ?thesis
    by blast
qed

text \<open>
  Claim C10 (read results are masked). For an arbitrary buffer, an arbitrary cursor
  (aligned or not) and any bit count, whenever \<^verbatim>\<open>Read8\<close>, \<^verbatim>\<open>Read16\<close>, \<^verbatim>\<open>Read32\<close> or
  \<^verbatim>\<open>Read64\<close> succeeds, the value it returns is below \<open>2 ^ bitCount\<close> and every bit of it at
  a position \<open>\<ge> bitCount\<close> is zero. (A successful call has \<open>bitCount\<close> within the
  container width, by the width guard.)
\<close>

theorem read_results_masked:
  "(Reader_Read8 r n = (Inr v8, r1) \<longrightarrow> unat v8 < 2 ^ unat n \<and> (\<forall>j\<ge>unat n. \<not> bit v8 j))
   \<and> (Reader_Read16 r n = (Inr v16, r2) \<longrightarrow> unat v16 < 2 ^ unat n \<and> (\<forall>j\<ge>unat n. \<not> bit v16 j))
   \<and> (Reader_Read32 r n = (Inr v32, r3) \<longrightarrow> unat v32 < 2 ^ unat n \<and> (\<forall>j\<ge>unat n. \<not> bit v32 j))
   \<and> (Reader_Read64 r n = (Inr v64, r4) \<longrightarrow> unat v64 < 2 ^ unat n \<and> (\<forall>j\<ge>unat n. \<not> bit v64 j))"
proof (intro conjI impI)
  assume "Reader_Read8 r n = (Inr v8, r1)"
  then have *: "read r n = (Inr v8, r1)" "unat n \<le> 127"
    by (auto simp add: Reader_Read8_def word_less_nat_alt split: if_splits)
  show "unat v8 < 2 ^ unat n"
    using * by (rule read_masked_generic)
  show "\<forall>j\<ge>unat n. \<not> bit v8 j"
    using * by (rule read_bits_generic)
next
  assume "Reader_Read16 r n = (Inr v16, r2)"
  then have *: "read r n = (Inr v16, r2)" "unat n \<le> 127"
    by (auto simp add: Reader_Read16_def word_less_nat_alt split: if_splits)
  show "unat v16 < 2 ^ unat n"
    using * by (rule read_masked_generic)
  show "\<forall>j\<ge>unat n. \<not> bit v16 j"
    using * by (rule read_bits_generic)
next
  assume "Reader_Read32 r n = (Inr v32, r3)"
  then have *: "read r n = (Inr v32, r3)" "unat n \<le> 127"
    by (auto simp add: Reader_Read32_def word_less_nat_alt split: if_splits)
  show "unat v32 < 2 ^ unat n"
    using * by (rule read_masked_generic)
  show "\<forall>j\<ge>unat n. \<not> bit v32 j"
    using * by (rule read_bits_generic)
next
  assume "Reader_Read64 r n = (Inr v64, r4)"
  then have *: "read r n = (Inr v64, r4)" "unat n \<le> 127"
    by (auto simp add: Reader_Read64_def word_less_nat_alt split: if_splits)
  show "unat v64 < 2 ^ unat n"
    using * by (rule read_masked_generic)
  show "\<forall>j\<ge>unat n. \<not> bit v64 j"
    using * by (rule read_bits_generic)
qed

theorem read_results_masked_witness:
  "Reader_Read8 \<lparr>rdata = [171, 205], bitsRead = 5\<rparr> 7
      = (Inr 109, \<lparr>rdata = [171, 205], bitsRead = 12\<rparr>)
   \<and> Reader_Read16 \<lparr>rdata = [171, 205], bitsRead = 5\<rparr> 7
      = (Inr 109, \<lparr>rdata = [171, 205], bitsRead = 12\<rparr>)
   \<and> Reader_Read32 \<lparr>rdata = [171, 205], bitsRead = 5\<rparr> 7
      = (Inr 109, \<lparr>rdata = [171, 205], bitsRead = 12\<rparr>)
   \<and> Reader_Read64 \<lparr>rdata = [171, 205], bitsRead = 5\<rparr> 7
      = (Inr 109, \<lparr>rdata = [171, 205], bitsRead = 12\<rparr>)
   \<and> unat (109 :: 8 word) < 2 ^ unat (7 :: byte) \<and> \<not> bit (109 :: 8 word) 7
   \<and> unat (109 :: 16 word) < 2 ^ unat (7 :: byte) \<and> \<not> bit (109 :: 16 word) 7
   \<and> unat (109 :: 32 word) < 2 ^ unat (7 :: byte) \<and> \<not> bit (109 :: 32 word) 7
   \<and> unat (109 :: 64 word) < 2 ^ unat (7 :: byte) \<and> \<not> bit (109 :: 64 word) 7"
proof -
  have h8: "Reader_Read8 \<lparr>rdata = [171, 205], bitsRead = 5\<rparr> 7
      = (Inr 109, \<lparr>rdata = [171, 205], bitsRead = 12\<rparr>)"
    by code_simp
  have h16: "Reader_Read16 \<lparr>rdata = [171, 205], bitsRead = 5\<rparr> 7
      = (Inr 109, \<lparr>rdata = [171, 205], bitsRead = 12\<rparr>)"
    by code_simp
  have h32: "Reader_Read32 \<lparr>rdata = [171, 205], bitsRead = 5\<rparr> 7
      = (Inr 109, \<lparr>rdata = [171, 205], bitsRead = 12\<rparr>)"
    by code_simp
  have h64: "Reader_Read64 \<lparr>rdata = [171, 205], bitsRead = 5\<rparr> 7
      = (Inr 109, \<lparr>rdata = [171, 205], bitsRead = 12\<rparr>)"
    by code_simp
  have n: "unat (7 :: byte) \<le> 7"
    by simp
  from read_results_masked [of "\<lparr>rdata = [171, 205], bitsRead = 5\<rparr>" 7
      109 "\<lparr>rdata = [171, 205], bitsRead = 12\<rparr>"
      109 "\<lparr>rdata = [171, 205], bitsRead = 12\<rparr>"
      109 "\<lparr>rdata = [171, 205], bitsRead = 12\<rparr>"
      109 "\<lparr>rdata = [171, 205], bitsRead = 12\<rparr>"]
    h8 h16 h32 h64 n
  show ?thesis
    by blast
qed

text \<open>
  Claim C7 (reader cursor bound). As stated, with zero-width reads included, the claim
  fails: \<^verbatim>\<open>Skip\<close> moves the cursor without any check and a read of 0 bits returns success
  before it looks at the cursor. On an empty buffer, \<^verbatim>\<open>Skip(12)\<close> followed by \<^verbatim>\<open>Read8(0)\<close>
  succeeds and leaves the cursor at 12, beyond the \<open>8 * 0\<close> bits of the buffer.
\<close>

theorem cursor_bound_counterexample:
  "Reader_calls (NewReader []) [Skip 12, Read8 0]
      = ([Inr VSkip, Inr (V8 0)], \<lparr>rdata = [], bitsRead = 12\<rparr>)
   \<and> \<not> unat (bitsRead \<lparr>rdata = [], bitsRead = 12\<rparr>) \<le> 8 * length ([] :: BitData)"
  by (simp add: NewReader_def Reader_Skip_def Reader_Read8_def read_def)

text \<open>
  Claim C7, amended. For a reader created over a buffer \<open>d\<close> and brought to any state by
  any sequence of \<^verbatim>\<open>Skip\<close> and read calls, whenever a read call of at least one bit
  (\<^verbatim>\<open>ReadBool\<close>, or \<^verbatim>\<open>Read8\<close>/\<^verbatim>\<open>Read16\<close>/\<^verbatim>\<open>Read32\<close>/\<^verbatim>\<open>Read64\<close> with \<open>bitCount \<ge> 1\<close>)
  returns success, the cursor afterwards is at most \<open>8 * length d\<close>, and the buffer is
  still \<open>d\<close>.
\<close>

theorem cursor_bound_nonzero_reads:
  assumes "Reader_calls (NewReader d) cs = (xs, r)"
    and "1 \<le> rcall_bits c"
    and "Reader_call r c = (Inr v, r')"
  shows "unat (bitsRead r') \<le> 8 * length d \<and> rdata r' = d"
proof -
  have d: "rdata r = d"
    using Reader_calls_rdata [OF assms(1)] by (simp add: NewReader_def)
  have w: "rcall_bits c \<le> rcall_width c"
    using Reader_call_too_big [of c r] assms(3) by (cases "rcall_width c < rcall_bits c") auto
  from Reader_call_spec [OF assms(2) w, of r] assms(3)
  have fits: "unat (bitsRead r) + rcall_bits c \<le> 8 * length d"
    and r': "r' = r\<lparr>bitsRead := bitsRead r + word_of_nat (rcall_bits c)\<rparr>"
    by (auto simp add: d split: if_splits)
  have "unat (bitsRead r + word_of_nat (rcall_bits c))
      \<le> unat (bitsRead r) + unat (word_of_nat (rcall_bits c) :: uint)"
    by (simp add: unat_word_ariths)
  also have "\<dots> \<le> unat (bitsRead r) + rcall_bits c"
    by (simp add: unat_of_nat)
  finally show ?thesis
    using fits by (simp add: r' d)
qed

theorem cursor_bound_nonzero_reads_witness:
  "Reader_calls (NewReader [255, 127]) [Read8 3, Skip 2]
      = ([Inr (V8 7), Inr VSkip], \<lparr>rdata = [255, 127], bitsRead = 5\<rparr>)
   \<and> 1 \<le> rcall_bits (Read16 10)
   \<and> Reader_call \<lparr>rdata = [255, 127], bitsRead = 5\<rparr> (Read16 10)
      = (Inr (V16 1023), \<lparr>rdata = [255, 127], bitsRead = 15\<rparr>)
   \<and> unat (bitsRead \<lparr>rdata = [255, 127], bitsRead = 15\<rparr>) \<le> 8 * length [255, 127 :: byte]
   \<and> rdata \<lparr>rdata = [255, 127], bitsRead = 15\<rparr> = [255, 127]"
proof -
  have h1: "Reader_calls (NewReader [255, 127]) [Read8 3, Skip 2]
      = ([Inr (V8 7), Inr VSkip], \<lparr>rdata = [255, 127], bitsRead = 5\<rparr>)"
    by code_simp
  have h2: "1 \<le> rcall_bits (Read16 10)"
    by simp
  have h3: "Reader_call \<lparr>rdata = [255, 127], bitsRead = 5\<rparr> (Read16 10)
      = (Inr (V16 1023), \<lparr>rdata = [255, 127], bitsRead = 15\<rparr>)"
    by code_simp
  from cursor_bound_nonzero_reads [OF h1 h2 h3] h1 h2 h3 show ?thesis
    by blast
qed

text \<open>
  Claim C9 (zero-width no-op). In every writer state a write with \<open>bitCount = 0\<close> returns
  the writer as it was (same buffer, same bit cursor), in each container; in every
  reader state a read with \<open>bitCount = 0\<close> returns the zero of the container with no error
  and the reader as it was.
\<close>

theorem zero_width_noop:
  "Writer_Write8 w v8 0 = Some w \<and> Writer_Write16 w v16 0 = Some w
   \<and> Writer_Write32 w v32 0 = Some w \<and> Writer_Write64 w v64 0 = Some w
   \<and> Reader_Read8 r 0 = (Inr 0, r) \<and> Reader_Read16 r 0 = (Inr 0, r)
   \<and> Reader_Read32 r 0 = (Inr 0, r) \<and> Reader_Read64 r 0 = (Inr 0, r)"
  by (simp add: Writer_Write8_def Writer_Write16_def Writer_Write32_def Writer_Write64_def
      Reader_Read8_def Reader_Read16_def Reader_Read32_def Reader_Read64_def writeT_def read_def)

subsection \<open>The sticky reader\<close>

text \<open>
  Claim C6 (sticky freeze). Let a \<^verbatim>\<open>ReaderError\<close> hold no error yet and let \<open>c\<close> be a call
  that fails in the underlying \<^verbatim>\<open>Reader\<close> with error \<open>e\<close>: the first failure. Then \<open>c\<close>
  and every call of any program \<open>cs\<close> that follows return the zero value of their
  container, the stored error is \<open>e\<close> at the end (whatever errors the later calls
  would have met), and the underlying reader has moved only by the \<^verbatim>\<open>Skip\<close> calls of
  \<open>cs\<close>: no read is delegated any more.
\<close>

theorem sticky_freeze:
  assumes "ReaderError_Error r = None" and "fst (Reader_call (reader r) c) = Inl e"
  shows "ReaderError_calls r (c # cs) =
      (map zero_result (c # cs),
       r\<lparr>reader := Reader_Skip (reader r) (skipped cs), err := Some e\<rparr>)
    \<and> ReaderError_Error (snd (ReaderError_calls r (c # cs))) = Some e"
proof -
  have first: "ReaderError_call r c = (zero_result c, r\<lparr>err := Some e\<rparr>)"
    using assms by (simp add: ReaderError_Error_def ReaderError_call_first_failure)
  have "err (r\<lparr>err := Some e\<rparr>) = Some e"
    by simp
  from ReaderError_calls_frozen [OF this, of cs] first show ?thesis
    by (simp add: ReaderError_Error_def)
qed

theorem sticky_freeze_witness:
  "ReaderError_Error (NewReaderError [255]) = None
   \<and> fst (Reader_call (reader (NewReaderError [255])) (Read8 9)) = Inl ErrBitCountTooBig
   \<and> ReaderError_calls (NewReaderError [255]) (Read8 9 # [Read8 3, Skip 4, Read16 8, ReadBool]) =
      (map zero_result (Read8 9 # [Read8 3, Skip 4, Read16 8, ReadBool]),
       (NewReaderError [255])\<lparr>reader := Reader_Skip (reader (NewReaderError [255]))
          (skipped [Read8 3, Skip 4, Read16 8, ReadBool]), err := Some ErrBitCountTooBig\<rparr>)
   \<and> ReaderError_Error (snd (ReaderError_calls (NewReaderError [255])
        (Read8 9 # [Read8 3, Skip 4, Read16 8, ReadBool]))) = Some ErrBitCountTooBig"
proof -
  have h1: "ReaderError_Error (NewReaderError [255]) = None"
    by (simp add: ReaderError_Error_def NewReaderError_def)
  have h2: "fst (Reader_call (reader (NewReaderError [255])) (Read8 9)) = Inl ErrBitCountTooBig"
    by (simp add: Reader_Read8_def)
  from sticky_freeze [OF h1 h2] h1 h2 show ?thesis
    by blast
qed

subsection \<open>Writer\<close>

text \<open>
  Claim C1 (round trip). Take any sequence of writes into a fresh \<^verbatim>\<open>Writer\<close> in which each
  bit count is between 1 and the width of the container of its call (1 for \<^verbatim>\<open>WriteBool\<close>,
  8, 16, 32, 64 for \<^verbatim>\<open>Write8\<close> to \<^verbatim>\<open>Write64\<close>) and each value is already masked to its bit
  count. Then every write succeeds, and reading the produced bytes back from a fresh
  \<^verbatim>\<open>Reader\<close> with the matching calls and the same bit counts, in the same order, succeeds
  at every call and returns exactly the values written; the reader ends at the writer's
  bit cursor. The bit cursor is a 64-bit \<^verbatim>\<open>uint\<close>: the sequence is taken to write fewer than
  \<open>2 ^ 64\<close> bits in all, which any buffer that fits in memory does.
\<close>

theorem round_trip:
  assumes "\<forall>c\<in>set cs. 1 \<le> wcall_bits c \<and> wcall_bits c \<le> wcall_width c \<and> wcall_masked c"
    and "sum_list (map wcall_bits cs) < 2 ^ 64"
  shows "\<exists>w. Writer_calls NewWriter cs = Some w
      \<and> Reader_calls (NewReader (Writer_BitData w)) (map read_of cs)
          = (map (\<lambda>c. Inr (value_of c)) cs,
             \<lparr>rdata = Writer_BitData w, bitsRead = bitsWritten w\<rparr>)"
proof -
  have b127: "\<forall>c\<in>set cs. wcall_bits c \<le> 127"
  proof
    fix c
    assume "c \<in> set cs"
    with assms(1) have "wcall_bits c \<le> wcall_width c"
      by simp
    with wcall_width_le [of c] show "wcall_bits c \<le> 127"
      by simp
  qed
  have fit: "unat (bitsWritten NewWriter) + sum_list (map wcall_bits cs) < 2 ^ 64"
    using assms(2) by (simp add: NewWriter_def)
  from Writer_calls_spec [OF Writer_inv_New b127 fit] obtain w where
    w: "Writer_calls NewWriter cs = Some w"
    by blast
  have "bitsRead (NewReader (wdata w)) = bitsWritten NewWriter"
    and "rdata (NewReader (wdata w)) = wdata w"
    by (simp_all add: NewReader_def NewWriter_def)
  from round_trip_calls [OF Writer_inv_New assms(1) fit w this]
  have "Reader_calls (NewReader (Writer_BitData w)) (map read_of cs)
          = (map (\<lambda>c. Inr (value_of c)) cs,
             \<lparr>rdata = Writer_BitData w, bitsRead = bitsWritten w\<rparr>)"
    by (simp add: NewReader_def Writer_BitData_def)
  with w show ?thesis
    by blast
qed

theorem round_trip_witness:
  "list_all (\<lambda>c. 1 \<le> wcall_bits c \<and> wcall_bits c \<le> wcall_width c \<and> wcall_masked c)
      [Write8 29 5, WriteBool True, Write16 2748 12]
   \<and> sum_list (map wcall_bits [Write8 29 5, WriteBool True, Write16 2748 12]) < 2 ^ 64
   \<and> Writer_calls NewWriter [Write8 29 5, WriteBool True, Write16 2748 12]
        = Some \<lparr>wdata = [61, 175, 2], bitsWritten = 18\<rparr>
   \<and> Reader_calls (NewReader [61, 175, 2]) [Read8 5, ReadBool, Read16 12]
        = ([Inr (V8 29), Inr (VBool True), Inr (V16 2748)],
           \<lparr>rdata = [61, 175, 2], bitsRead = 18\<rparr>)"
proof -
  let ?cs = "[Write8 29 5, WriteBool True, Write16 2748 12]"
  have h0: "list_all (\<lambda>c. 1 \<le> wcall_bits c \<and> wcall_bits c \<le> wcall_width c \<and> wcall_masked c) ?cs"
    by (simp add: maskT_def)
  then have h1: "\<forall>c\<in>set ?cs. 1 \<le> wcall_bits c \<and> wcall_bits c \<le> wcall_width c \<and> wcall_masked c"
    by (simp only: list_all_iff)
  have h2: "sum_list (map wcall_bits ?cs) < 2 ^ 64"
    by simp
  have run: "Writer_calls NewWriter ?cs = Some \<lparr>wdata = [61, 175, 2], bitsWritten = 18\<rparr>"
    by code_simp
  from round_trip [OF h1 h2] run
  have "Reader_calls (NewReader [61, 175, 2]) [Read8 5, ReadBool, Read16 12]
        = ([Inr (V8 29), Inr (VBool True), Inr (V16 2748)],
           \<lparr>rdata = [61, 175, 2], bitsRead = 18\<rparr>)"
    by (simp add: Writer_BitData_def)
  with h0 h2 run show ?thesis
    by blast
qed

text \<open>
  Claim C2 (size law). The law does not hold for every sequence of writes. It holds as
  long as every bit count is at most 127 (lemma \<open>size_law_up_to_127_bits\<close>, which covers
  every count within a container width and the over-wide 118-bit write of the test
  \<^verbatim>\<open>TestBitDataTooManyBits\<close>). The remaining-bits counter of \<^verbatim>\<open>write\<close> is
  \<^verbatim>\<open>int8(bitCount)\<close>, which is negative for a bit count of 128 or more: on a fresh writer
  \<^verbatim>\<open>Write8(0, 128)\<close> skips the append loop and still advances the cursor by 128. The buffer
  then has 0 bytes where the law asks for \<open>ceil(128 / 8) = 16\<close>.
\<close>

theorem size_law_fails_from_128_bits:
  "Writer_calls NewWriter [Write8 0 128] = Some \<lparr>wdata = [], bitsWritten = 128\<rparr>
   \<and> length (Writer_BitData \<lparr>wdata = [], bitsWritten = 128\<rparr>) = 0
   \<and> (unat (bitsWritten \<lparr>wdata = [], bitsWritten = 128\<rparr>) + 7) div 8 = 16"
proof -
  have "Writer_calls NewWriter [Write8 0 128] = Some \<lparr>wdata = [], bitsWritten = 128\<rparr>"
    by code_simp
  then show ?thesis
    by (simp add: Writer_BitData_def)
qed

text \<open>
  Claim C8 (trailing padding bits are zero). After any sequence of writes into a fresh
  \<^verbatim>\<open>Writer\<close>, each with its bit count within its container width (0 included), every
  write has succeeded, the bit cursor is the sum of the bit counts, and no bit of the
  produced byte sequence at a position at or beyond the cursor is set: the unused high
  bits of the last byte are zero. As in C1 the sequence writes fewer than \<open>2 ^ 64\<close> bits.
\<close>

theorem trailing_padding_zero:
  assumes "\<forall>c\<in>set cs. wcall_bits c \<le> wcall_width c"
    and "sum_list (map wcall_bits cs) < 2 ^ 64"
  shows "\<exists>w. Writer_calls NewWriter cs = Some w
      \<and> unat (bitsWritten w) = sum_list (map wcall_bits cs)
      \<and> (\<forall>p\<ge>unat (bitsWritten w). \<not> bitAt (Writer_BitData w) p)"
proof -
  have b127: "\<forall>c\<in>set cs. wcall_bits c \<le> 127"
  proof
    fix c
    assume "c \<in> set cs"
    with assms(1) have "wcall_bits c \<le> wcall_width c"
      by simp
    with wcall_width_le [of c] show "wcall_bits c \<le> 127"
      by simp
  qed
  have fit: "unat (bitsWritten NewWriter) + sum_list (map wcall_bits cs) < 2 ^ 64"
    using assms(2) by (simp add: NewWriter_def)
  from Writer_calls_spec [OF Writer_inv_New b127 fit] obtain w where
    "Writer_calls NewWriter cs = Some w" and "Writer_inv w"
    and "unat (bitsWritten w) = unat (bitsWritten NewWriter) + sum_list (map wcall_bits cs)"
    by blast
  then show ?thesis
    by (auto simp add: Writer_inv_def Writer_BitData_def NewWriter_def)
qed

theorem trailing_padding_zero_witness:
  "list_all (\<lambda>c. wcall_bits c \<le> wcall_width c)
      [Write8 29 5, WriteBool True, Write16 0 0, Write16 2748 12]
   \<and> sum_list (map wcall_bits [Write8 29 5, WriteBool True, Write16 0 0, Write16 2748 12]) < 2 ^ 64
   \<and> Writer_calls NewWriter [Write8 29 5, WriteBool True, Write16 0 0, Write16 2748 12]
        = Some \<lparr>wdata = [61, 175, 2], bitsWritten = 18\<rparr>
   \<and> \<not> bitAt [61, 175, 2] 18 \<and> \<not> bitAt [61, 175, 2] 19 \<and> \<not> bitAt [61, 175, 2] 20
   \<and> \<not> bitAt [61, 175, 2] 21 \<and> \<not> bitAt [61, 175, 2] 22 \<and> \<not> bitAt [61, 175, 2] 23
   \<and> \<not> bitAt [61, 175, 2] 24"
proof -
  let ?cs = "[Write8 29 5, WriteBool True, Write16 0 0, Write16 2748 12]"
  have h0: "list_all (\<lambda>c. wcall_bits c \<le> wcall_width c) ?cs"
    by simp
  then have h1: "\<forall>c\<in>set ?cs. wcall_bits c \<le> wcall_width c"
    by (simp only: list_all_iff)
  have h2: "sum_list (map wcall_bits ?cs) < 2 ^ 64"
    by simp
  have run: "Writer_calls NewWriter ?cs = Some \<lparr>wdata = [61, 175, 2], bitsWritten = 18\<rparr>"
    by code_simp
  from trailing_padding_zero [OF h1 h2] run
  have pad: "\<forall>p\<ge>18. \<not> bitAt [61, 175, 2] p"
    by (simp add: Writer_BitData_def)
  have "\<not> bitAt [61, 175, 2] 18" "\<not> bitAt [61, 175, 2] 19" "\<not> bitAt [61, 175, 2] 20"
    "\<not> bitAt [61, 175, 2] 21" "\<not> bitAt [61, 175, 2] 22" "\<not> bitAt [61, 175, 2] 23"
    "\<not> bitAt [61, 175, 2] 24"
    using pad by simp_all
  with h0 h2 run show ?thesis
    by blast
qed

end
